theory Spec2Isabelle
  imports Main "HOL-Library.Multiset"
begin

section \<open>Strings\<close>

text \<open>
  A JavaScript string is a sequence of UTF-16 code units. A code unit is modelled by its
  number, so that the zero-width space U+200B (8203), NUL (0) and U+FFFD (65533) are
  ordinary elements. \<open>ustr\<close> embeds an ASCII literal.
\<close>

type_synonym ustring = "nat list"

definition ustr :: "string \<Rightarrow> ustring" where
  "ustr s = map of_char s"

abbreviation DQUOTE :: nat where "DQUOTE \<equiv> 34"
abbreviation BACKSLASH :: nat where "BACKSLASH \<equiv> 92"
abbreviation MARKER :: nat where "MARKER \<equiv> 8203"

definition isDigit :: "nat \<Rightarrow> bool" where
  "isDigit c = (48 \<le> c \<and> c \<le> 57)"

text \<open>Template literals print an array index in decimal.\<close>

fun decimal :: "nat \<Rightarrow> ustring" where
  "decimal n = (if n < 10 then [48 + n] else decimal (n div 10) @ [48 + n mod 10])"

text \<open>\<open>str.replace(/c/g, r)\<close> for a single character \<open>c\<close>.\<close>

definition replaceAll :: "nat \<Rightarrow> ustring \<Rightarrow> ustring \<Rightarrow> ustring" where
  "replaceAll c r s = concat (map (\<lambda>x. if x = c then r else [x]) s)"

section \<open>The formatter: escaping\<close>

text \<open>
  \<open>htmlEncode\<close>: four global replacements, the ampersand first. The source's guard for
  \<open>undefined\<close> and \<open>null\<close> is \<open>htmlEncodeOpt\<close>.
\<close>

definition htmlEncode :: "ustring \<Rightarrow> ustring" where
  "htmlEncode t =
     replaceAll 62 (ustr ''&gt;'')
       (replaceAll 60 (ustr ''&lt;'')
         (replaceAll 34 (ustr ''&quot;'')
           (replaceAll 38 (ustr ''&amp;'') t)))"

definition htmlEncodeOpt :: "ustring option \<Rightarrow> ustring" where
  "htmlEncodeOpt t = (case t of None \<Rightarrow> [] | Some s \<Rightarrow> htmlEncode s)"

text \<open>
  \<open>JSON.stringify\<close> of a string (QuoteJSONString of ECMA-262): the two-character
  escapes, \<open>\uXXXX\<close> in lower-case hexadecimal for the other control characters and for
  lone surrogates, every other code unit as it is, between two double quotes.
\<close>

definition hexDigit :: "nat \<Rightarrow> nat" where
  "hexDigit d = (if d < 10 then 48 + d else 87 + d)"

definition unicodeEscape :: "nat \<Rightarrow> ustring" where
  "unicodeEscape u =
     [BACKSLASH, 117, hexDigit (u div 4096 mod 16), hexDigit (u div 256 mod 16),
      hexDigit (u div 16 mod 16), hexDigit (u mod 16)]"

definition isHighSurrogate :: "nat \<Rightarrow> bool" where
  "isHighSurrogate c = (55296 \<le> c \<and> c \<le> 56319)"

definition isLowSurrogate :: "nat \<Rightarrow> bool" where
  "isLowSurrogate c = (56320 \<le> c \<and> c \<le> 57343)"

definition quoteUnit :: "nat \<Rightarrow> ustring" where
  "quoteUnit c =
     (if c = 8 then [BACKSLASH, 98]
      else if c = 9 then [BACKSLASH, 116]
      else if c = 10 then [BACKSLASH, 110]
      else if c = 12 then [BACKSLASH, 102]
      else if c = 13 then [BACKSLASH, 114]
      else if c = DQUOTE then [BACKSLASH, DQUOTE]
      else if c = BACKSLASH then [BACKSLASH, BACKSLASH]
      else if c < 32 \<or> isHighSurrogate c \<or> isLowSurrogate c then unicodeEscape c
      else [c])"

fun quoteBody :: "ustring \<Rightarrow> ustring" where
  "quoteBody [] = []"
| "quoteBody [c] = quoteUnit c"
| "quoteBody (c # d # cs) =
     (if isHighSurrogate c \<and> isLowSurrogate d then c # d # quoteBody cs
      else quoteUnit c @ quoteBody (d # cs))"

definition JSON_stringify :: "ustring \<Rightarrow> ustring" where
  "JSON_stringify s = [DQUOTE] @ quoteBody s @ [DQUOTE]"

text \<open>\<open>s.slice(1, -1)\<close>\<close>

definition slice_1_m1 :: "ustring \<Rightarrow> ustring" where
  "slice_1_m1 s = butlast (tl s)"

definition jsString :: "ustring \<Rightarrow> ustring" where
  "jsString s = htmlEncode (slice_1_m1 (JSON_stringify s))"

text \<open>\<open>/^[A-Za-z_$][A-Za-z0-9_\-$]*$/.test(prop)\<close>\<close>

definition isBareStart :: "nat \<Rightarrow> bool" where
  "isBareStart c = ((65 \<le> c \<and> c \<le> 90) \<or> (97 \<le> c \<and> c \<le> 122) \<or> c = 95 \<or> c = 36)"

definition isBareRest :: "nat \<Rightarrow> bool" where
  "isBareRest c = (isBareStart c \<or> isDigit c \<or> c = 45)"

definition isBareProp :: "ustring \<Rightarrow> bool" where
  "isBareProp prop = (case prop of [] \<Rightarrow> False | c # cs \<Rightarrow> isBareStart c \<and> list_all isBareRest cs)"

definition decorateWithSpan :: "ustring \<Rightarrow> ustring \<Rightarrow> ustring" where
  \<open>decorateWithSpan v className =
     ustr ''<span class="'' @ className @ ustr ''">'' @ htmlEncode v @ ustr ''</span>''\<close>

section \<open>The platform: numeric coercion and white space\<close>

text \<open>
  White space and line terminators of ECMA-262 (the characters of \<open>\s\<close> and of
  StrWhiteSpaceChar). U+200B is not one of them.
\<close>

definition isWhiteSpace :: "nat \<Rightarrow> bool" where
  "isWhiteSpace c =
     (c = 9 \<or> c = 10 \<or> c = 11 \<or> c = 12 \<or> c = 13 \<or> c = 32 \<or> c = 160 \<or> c = 5760
      \<or> (8192 \<le> c \<and> c \<le> 8202) \<or> c = 8232 \<or> c = 8233 \<or> c = 8239 \<or> c = 8287
      \<or> c = 12288 \<or> c = 65279)"

definition trimString :: "ustring \<Rightarrow> ustring" where
  "trimString s = rev (dropWhile isWhiteSpace (rev (dropWhile isWhiteSpace s)))"

text \<open>
  \<open>isNaN(s)\<close> for a string \<open>s\<close> converts it with StringToNumber, which gives NaN exactly
  when the string, white space trimmed, is neither empty nor a StrNumericLiteral:
  a signed decimal literal (\<open>Infinity\<close>, digits with an optional fraction and exponent,
  where the digits before or after the point may be missing but not both) or an unsigned
  binary, octal or hexadecimal integer literal. Whether the result is NaN does not depend
  on any rounding.
\<close>

definition isExponentPart :: "ustring \<Rightarrow> bool" where
  "isExponentPart s =
     (case s of
        [] \<Rightarrow> False
      | e # r \<Rightarrow> (e = 101 \<or> e = 69) \<and>
          (case r of
             [] \<Rightarrow> False
           | sg # ds \<Rightarrow> if sg = 43 \<or> sg = 45 then ds \<noteq> [] \<and> list_all isDigit ds
                       else list_all isDigit r))"

definition isStrUnsignedDecimalLiteral :: "ustring \<Rightarrow> bool" where
  "isStrUnsignedDecimalLiteral s =
     (s = ustr ''Infinity'' \<or>
      (let ip = takeWhile isDigit s; r1 = dropWhile isDigit s in
       case r1 of
         [] \<Rightarrow> ip \<noteq> []
       | c # r2 \<Rightarrow>
           if c = 46 then
             (let fp = takeWhile isDigit r2; r3 = dropWhile isDigit r2 in
              (ip \<noteq> [] \<or> fp \<noteq> []) \<and> (r3 = [] \<or> isExponentPart r3))
           else ip \<noteq> [] \<and> isExponentPart r1))"

definition isStrDecimalLiteral :: "ustring \<Rightarrow> bool" where
  "isStrDecimalLiteral s =
     (case s of
        [] \<Rightarrow> False
      | c # r \<Rightarrow> if c = 43 \<or> c = 45 then isStrUnsignedDecimalLiteral r
                 else isStrUnsignedDecimalLiteral s)"

definition isHexDigit :: "nat \<Rightarrow> bool" where
  "isHexDigit c = (isDigit c \<or> (65 \<le> c \<and> c \<le> 70) \<or> (97 \<le> c \<and> c \<le> 102))"

definition isNonDecimalIntegerLiteral :: "ustring \<Rightarrow> bool" where
  "isNonDecimalIntegerLiteral s =
     (case s of
        z # x # ds \<Rightarrow>
          z = 48 \<and> ds \<noteq> [] \<and>
          (if x = 120 \<or> x = 88 then list_all isHexDigit ds
           else if x = 111 \<or> x = 79 then list_all (\<lambda>c. 48 \<le> c \<and> c \<le> 55) ds
           else if x = 98 \<or> x = 66 then list_all (\<lambda>c. c = 48 \<or> c = 49) ds
           else False)
      | _ \<Rightarrow> False)"

definition isNaN_string :: "ustring \<Rightarrow> bool" where
  "isNaN_string s =
     (let t = trimString s in
      \<not> (t = [] \<or> isStrDecimalLiteral t \<or> isNonDecimalIntegerLiteral t))"

text \<open>
  \<open>/^(http|https|file):\/\/[^\s]+$/i.test(value)\<close>. Without the unicode flag, ignoring
  case relates only the ASCII letters to each other.
\<close>

definition toLowerAscii :: "nat \<Rightarrow> nat" where
  "toLowerAscii c = (if 65 \<le> c \<and> c \<le> 90 then c + 32 else c)"

definition isLinkString :: "ustring \<Rightarrow> bool" where
  "isLinkString v =
     list_ex
       (\<lambda>p. map toLowerAscii (take (length p) v) = p \<and>
            drop (length p) v \<noteq> [] \<and>
            list_all (\<lambda>c. \<not> isWhiteSpace c) (drop (length p) v))
       [ustr ''http://'', ustr ''https://'', ustr ''file://'']"

section \<open>The formatter: values\<close>

text \<open>
  A parsed JSON value. An object is the list of its properties in the order of their
  creation, with distinct keys. A number is represented by the text that
  \<open>Number.prototype.toString\<close> gives for it (the text the formatter prints); how a
  literal is rounded to that number is the parser's affair.
\<close>

datatype jsvalue =
    JNull
  | JBool bool
  | JNumber ustring
  | JString ustring
  | JArray "jsvalue list"
  | JObject "(ustring \<times> jsvalue) list"

text \<open>
  \<open>for (const prop in json)\<close> enumerates the keys of an ordinary object in the order of
  OrdinaryOwnPropertyKeys: first the keys that are array indices (canonical decimal
  numerals below \<open>2^32 - 1\<close>) in ascending numeric order, then the other keys in the
  order of their creation.
\<close>

fun decimalValue :: "ustring \<Rightarrow> nat \<Rightarrow> nat" where
  "decimalValue [] acc = acc"
| "decimalValue (c # cs) acc = decimalValue cs (10 * acc + (c - 48))"

definition arrayIndex :: "ustring \<Rightarrow> nat option" where
  "arrayIndex k =
     (if k \<noteq> [] \<and> list_all isDigit k \<and> (k = [48] \<or> hd k \<noteq> 48) \<and>
         decimalValue k 0 < 4294967295
      then Some (decimalValue k 0) else None)"

definition indexOf :: "ustring \<Rightarrow> nat" where
  "indexOf k = (case arrayIndex k of None \<Rightarrow> 0 | Some n \<Rightarrow> n)"

definition forInKeys :: "(ustring \<times> 'a) list \<Rightarrow> ustring list" where
  "forInKeys json =
     sort_key indexOf (filter (\<lambda>k. arrayIndex k \<noteq> None) (map fst json)) @
     filter (\<lambda>k. arrayIndex k = None) (map fst json)"

text \<open>
  The three mutually recursive functions of the source. \<open>arrayToHTML\<close> and
  \<open>objectToHTML\<close> receive, for each element, the function
  \<open>\<lambda>subPath. valueToHTML(element, subPath)\<close>; the loops carry the source's counters
  (\<open>i\<close> and \<open>json.length\<close>, \<open>numProps\<close>).
\<close>

fun arrayLoop :: "(ustring \<Rightarrow> ustring) list \<Rightarrow> nat \<Rightarrow> nat \<Rightarrow> ustring \<Rightarrow> ustring" where
  "arrayLoop [] i len path = []"
| "arrayLoop (r # rs) i len path =
     (ustr ''<li>'' @ r (path @ ustr ''['' @ decimal i @ ustr '']'') @
      (if i < len - 1 then ustr '','' else []) @ ustr ''</li>'') @
     arrayLoop rs (Suc i) len path"

definition arrayToHTML :: "(ustring \<Rightarrow> ustring) list \<Rightarrow> ustring \<Rightarrow> ustring" where
  \<open>arrayToHTML json path =
     (if length json = 0 then ustr ''[ ]''
      else (if length json = 0 then [] else ustr ''<span class="collapser"></span>'') @
           ustr ''[<ul class="array collapsible">'' @
           arrayLoop json 0 (length json) path @ ustr ''</ul>]'')\<close>

definition objectItem ::
  "(ustring \<times> (ustring \<Rightarrow> ustring)) list \<Rightarrow> ustring \<Rightarrow> nat \<Rightarrow> ustring \<Rightarrow> ustring" where
  \<open>objectItem json prop numProps path =
     (let escapedProp = slice_1_m1 (JSON_stringify prop);
          bare = isBareProp prop;
          subPath = (if bare then path @ ustr ''.'' @ escapedProp else [])
      in ustr ''<li><span class="prop'' @ (if bare then [] else ustr '' quoted'') @
         ustr ''" title="'' @ htmlEncode subPath @
         ustr ''"><span class="q">&quot;</span>'' @ jsString prop @
         ustr ''<span class="q">&quot;</span></span>: '' @
         (case map_of json prop of None \<Rightarrow> [] | Some r \<Rightarrow> r subPath) @
         (if numProps > 1 then ustr '','' else []) @ ustr ''</li>'')\<close>

fun objectLoop ::
  "(ustring \<times> (ustring \<Rightarrow> ustring)) list \<Rightarrow> ustring list \<Rightarrow> nat \<Rightarrow> ustring \<Rightarrow> ustring" where
  "objectLoop json [] numProps path = []"
| "objectLoop json (prop # props) numProps path =
     objectItem json prop numProps path @ objectLoop json props (numProps - 1) path"

definition objectToHTML :: "(ustring \<times> (ustring \<Rightarrow> ustring)) list \<Rightarrow> ustring \<Rightarrow> ustring" where
  \<open>objectToHTML json path =
     (let numProps = length json in
      if numProps = 0 then ustr ''{ }''
      else ustr ''<span class="collapser"></span>{<ul class="obj collapsible">'' @
           objectLoop json (forInKeys json) numProps path @ ustr ''</ul>}'')\<close>

definition stringToHTML :: "ustring \<Rightarrow> ustring" where
  \<open>stringToHTML v =
     (if isLinkString v then
        ustr ''<a href="'' @ htmlEncode v @ ustr ''"><span class="q">&quot;</span>'' @
        jsString v @ ustr ''<span class="q">&quot;</span></a>''
      else ustr ''<span class="string">&quot;'' @ jsString v @ ustr ''&quot;</span>'')\<close>

primrec valueToHTML :: "jsvalue \<Rightarrow> ustring \<Rightarrow> ustring" where
  "valueToHTML JNull = (\<lambda>path. decorateWithSpan (ustr ''null'') (ustr ''null''))"
| "valueToHTML (JArray json) = arrayToHTML (map valueToHTML json)"
| "valueToHTML (JObject json) = objectToHTML (map (map_prod id valueToHTML) json)"
| "valueToHTML (JNumber n) = (\<lambda>path. decorateWithSpan n (ustr ''num''))"
| "valueToHTML (JString v) =
     (\<lambda>path. if v \<noteq> [] \<and> hd v = MARKER \<and> \<not> isNaN_string (tl v)
             then decorateWithSpan (tl v) (ustr ''num'')
             else stringToHTML v)"
| "valueToHTML (JBool b) =
     (\<lambda>path. decorateWithSpan (if b then ustr ''true'' else ustr ''false'') (ustr ''bool''))"

definition jsonToHTMLBody :: "jsvalue \<Rightarrow> ustring" where
  \<open>jsonToHTMLBody json = ustr ''<div id="json">'' @ valueToHTML json (ustr ''<root>'') @ ustr ''</div>''\<close>

section \<open>The error page\<close>

text \<open>
  The error a failed \<open>JSON.parse\<close> throws carries a message; it has no \<open>line\<close> or
  \<open>column\<close> property of its own. \<open>massageError\<close> returns either the error itself or a
  fresh object with the three fields.
\<close>

record errorInfo =
  message :: ustring
  line :: "nat option"
  column :: "nat option"

definition thrownError :: "ustring \<Rightarrow> errorInfo" where
  "thrownError msg = \<lparr>message = msg, line = None, column = None\<rparr>"

definition isLineTerminator :: "nat \<Rightarrow> bool" where
  "isLineTerminator c = (c = 10 \<or> c = 13 \<or> c = 8232 \<or> c = 8233)"

text \<open>\<open>.replace(/^JSON.parse: /, '')\<close>: the dot stands for any character of a line.\<close>

definition stripJSONparse :: "ustring \<Rightarrow> ustring" where
  "stripJSONparse m =
     (if 12 \<le> length m \<and> take 4 m = ustr ''JSON'' \<and> \<not> isLineTerminator (m ! 4) \<and>
         take 7 (drop 5 m) = ustr ''parse: ''
      then drop 12 m else m)"

text \<open>\<open>.replace(/of the JSON data/, '')\<close>: the first occurrence only.\<close>

fun removeFirst :: "ustring \<Rightarrow> ustring \<Rightarrow> ustring" where
  "removeFirst pat [] = []"
| "removeFirst pat (c # cs) =
     (if take (length pat) (c # cs) = pat then drop (length pat) (c # cs)
      else c # removeFirst pat cs)"

text \<open>
  \<open>/line (\d+) column (\d+)/.exec(message)\<close>: the leftmost position where the pattern
  matches; both groups take every digit there is. \<open>Number\<close> of a group is its decimal
  value.
\<close>

definition matchLineColumn :: "ustring \<Rightarrow> (nat \<times> nat) option" where
  "matchLineColumn s =
     (if take 5 s = ustr ''line '' then
        (let r = drop 5 s; d1 = takeWhile isDigit r; r1 = dropWhile isDigit r in
         if d1 \<noteq> [] \<and> take 8 r1 = ustr '' column '' then
           (let d2 = takeWhile isDigit (drop 8 r1) in
            if d2 \<noteq> [] then Some (decimalValue d1 0, decimalValue d2 0) else None)
         else None)
      else None)"

fun findLineColumn :: "ustring \<Rightarrow> (nat \<times> nat) option" where
  "findLineColumn [] = None"
| "findLineColumn (c # cs) =
     (case matchLineColumn (c # cs) of
        Some r \<Rightarrow> Some r
      | None \<Rightarrow> findLineColumn cs)"

definition massageError :: "errorInfo \<Rightarrow> errorInfo" where
  "massageError error =
     (if message error = [] then error
      else
        (let msg = removeFirst (ustr ''of the JSON data'') (stripJSONparse (message error)) in
         case findLineColumn msg of
           None \<Rightarrow> error
         | Some (l, c) \<Rightarrow> \<lparr>message = htmlEncode msg, line = Some l, column = Some c\<rparr>))"

text \<open>
  \<open>data.match(/^.*((\r\n|\n|\r)|$)/gm)\<close>: every line with its terminator. A line that
  ends at U+2028 or U+2029 is matched without it, and the next match starts behind it;
  after a final terminator there is one more, empty, match.
\<close>

function matchLines :: "ustring \<Rightarrow> ustring list" where
  "matchLines s =
     (let l = takeWhile (\<lambda>c. \<not> isLineTerminator c) s;
          r = dropWhile (\<lambda>c. \<not> isLineTerminator c) s
      in case r of
           [] \<Rightarrow> [l]
         | c # r' \<Rightarrow>
             if c = 13 \<and> r' \<noteq> [] \<and> hd r' = 10 then (l @ [13, 10]) # matchLines (tl r')
             else if c = 10 \<or> c = 13 then (l @ [c]) # matchLines r'
             else l # matchLines r')"
  by pat_completeness auto
termination
proof (relation "measure length")
  show "wf (measure length)" by simp
next
  fix s :: ustring and l r c r'
  assume r: "r = dropWhile (\<lambda>c. \<not> isLineTerminator c) s" and c: "r = c # r'"
  have le: "length r \<le> length s" unfolding r by (rule length_dropWhile_le)
  { assume "c = 13 \<and> r' \<noteq> [] \<and> hd r' = 10"
    then have "length (tl r') < length r" using c by (cases r') auto
    with le show "(tl r', s) \<in> measure length" by simp }
  { show "(r', s) \<in> measure length" using le c by simp }
  { show "(r', s) \<in> measure length" using le c by simp }
qed

definition falsy :: "nat option \<Rightarrow> bool" where
  "falsy n = (n = None \<or> n = Some 0)"

definition numberOf :: "nat option \<Rightarrow> nat" where
  "numberOf n = (case n of None \<Rightarrow> 0 | Some k \<Rightarrow> k)"

definition charAt :: "ustring \<Rightarrow> nat \<Rightarrow> ustring option" where
  "charAt s i = (if i < length s then Some [s ! i] else None)"

fun highlightLoop :: "ustring list \<Rightarrow> nat \<Rightarrow> nat \<Rightarrow> nat \<Rightarrow> ustring" where
  "highlightLoop [] i lineNum columnNum = []"
| \<open>highlightLoop (ln # lns) i lineNum columnNum =
     (if i = lineNum - 1 then
        ustr ''<span class="errorline">'' @
        htmlEncode (take (columnNum - 1) ln) @ ustr ''<span class="errorcolumn">'' @
        htmlEncodeOpt (charAt ln (columnNum - 1)) @ ustr ''</span>'' @
        htmlEncode (drop columnNum ln) @ ustr ''</span>''
      else htmlEncode ln) @
     highlightLoop lns (Suc i) lineNum columnNum\<close>

definition highlightError :: "ustring \<Rightarrow> nat option \<Rightarrow> nat option \<Rightarrow> ustring" where
  "highlightError data lineNum columnNum =
     (if falsy lineNum \<or> falsy columnNum then htmlEncode data
      else highlightLoop (matchLines data) 0 (numberOf lineNum) (numberOf columnNum))"

text \<open>\<open>data.replace("\u0000", "\uFFFD")\<close>: a string pattern replaces its first occurrence.\<close>

fun replaceFirst :: "nat \<Rightarrow> nat \<Rightarrow> ustring \<Rightarrow> ustring" where
  "replaceFirst c r [] = []"
| "replaceFirst c r (x # xs) = (if x = c then r # xs else x # replaceFirst c r xs)"

text \<open>
  \<open>errorPageBody\<close>; the localised text of \<open>chrome.i18n.getMessage('errorParsing')\<close> is
  the parameter \<open>errorParsing\<close>.
\<close>

definition errorPageBody :: "ustring \<Rightarrow> errorInfo \<Rightarrow> ustring \<Rightarrow> ustring" where
  \<open>errorPageBody errorParsing error data0 =
     (let data = replaceFirst 0 65533 data0;
          info = massageError error
      in ustr ''<div id="error">'' @ errorParsing @
         (if message info \<noteq> [] then
            ustr ''<div class="errormessage">'' @ message info @ ustr ''</div>''
          else []) @
         ustr ''</div><div id="json">'' @ highlightError data (line info) (column info) @
         ustr ''</div>'')\<close>

section \<open>The number encoder\<close>

text \<open>
  \<open>numberFinder = /-?(?:0|[1-9]\d*)(?:\.\d+)?(?:[eE][+-]?\d+)?/g\<close>. \<open>matchNumber s\<close> is
  the length of its match at the start of \<open>s\<close>, if there is one: an optional minus, the
  integer part (a single \<open>0\<close>, or every digit there is), the fraction and the exponent
  where they are complete. Every part behind the integer part is optional, so the first
  alternative that the backtracking matcher tries for them stands.
\<close>

definition integerLength :: "ustring \<Rightarrow> nat" where
  "integerLength s =
     (case s of
        [] \<Rightarrow> 0
      | d # r \<Rightarrow> if d = 48 then 1
                 else if isDigit d then 1 + length (takeWhile isDigit r)
                 else 0)"

definition fractionLength :: "ustring \<Rightarrow> nat" where
  "fractionLength s =
     (case s of
        [] \<Rightarrow> 0
      | c # r \<Rightarrow> if c = 46 \<and> takeWhile isDigit r \<noteq> [] then 1 + length (takeWhile isDigit r)
                 else 0)"

definition exponentLength :: "ustring \<Rightarrow> nat" where
  "exponentLength s =
     (case s of
        [] \<Rightarrow> 0
      | e # r \<Rightarrow>
          if e = 101 \<or> e = 69 then
            (case r of
               [] \<Rightarrow> 0
             | sg # ds \<Rightarrow>
                 if sg = 43 \<or> sg = 45 then
                   (if takeWhile isDigit ds \<noteq> [] then 2 + length (takeWhile isDigit ds) else 0)
                 else if isDigit sg then 1 + length (takeWhile isDigit r)
                 else 0)
          else 0)"

definition matchNumber :: "ustring \<Rightarrow> nat option" where
  "matchNumber s =
     (let sg = (if s \<noteq> [] \<and> hd s = 45 then 1 else 0);
          ip = integerLength (drop sg s)
      in if ip = 0 then None
         else
           (let fp = fractionLength (drop (sg + ip) s);
                ep = exponentLength (drop (sg + ip + fp) s)
            in Some (sg + ip + fp + ep)))"

text \<open>
  The matches of the global pattern in order, each with its index: \<open>findMatches s i\<close>
  for the text \<open>s\<close> that starts at index \<open>i\<close>. The search goes on behind a match, and
  one character further where there is none.
\<close>

function findMatches :: "ustring \<Rightarrow> nat \<Rightarrow> (nat \<times> ustring) list" where
  "findMatches [] i = []"
| "findMatches (c # cs) i =
     (case matchNumber (c # cs) of
        None \<Rightarrow> findMatches cs (Suc i)
      | Some n \<Rightarrow> (i, take n (c # cs)) # findMatches (drop n (c # cs)) (i + n))"
  by pat_completeness auto
termination
proof (relation "measure (\<lambda>(s, i). length s)")
  show "wf (measure (\<lambda>(s, i). length s))" by simp
next
  fix c :: nat and cs :: ustring and i :: nat
  show "((cs, Suc i), (c # cs, i)) \<in> measure (\<lambda>(s, i). length s)" by simp
next
  fix c :: nat and cs :: ustring and i n :: nat
  assume "matchNumber (c # cs) = Some n"
  then have "0 < n"
    by (auto simp: matchNumber_def Let_def split: if_splits)
  then show "((drop n (c # cs), i + n), (c # cs, i)) \<in> measure (\<lambda>(s, i). length s)"
    by simp
qed

text \<open>
  \<open>isInsideQuotes\<close>: the inner loop walks back over the backslashes before a quote, the
  outer loop over the characters of \<open>str\<close>; the closure variable \<open>wasInQuotes\<close> is passed
  in, and its new value is the result.
\<close>

fun lookbackLoop :: "ustring \<Rightarrow> bool \<Rightarrow> bool" where
  "lookbackLoop [] escaped = escaped"
| "lookbackLoop (c # cs) escaped =
     (if c = BACKSLASH then lookbackLoop cs (\<not> escaped) else escaped)"

definition quoteStep :: "ustring \<Rightarrow> nat \<Rightarrow> bool \<Rightarrow> bool" where
  "quoteStep str i inQuotes =
     (if str ! i = DQUOTE then
        (if \<not> lookbackLoop (rev (take i str)) False then \<not> inQuotes else inQuotes)
      else inQuotes)"

definition isInsideQuotes :: "bool \<Rightarrow> ustring \<Rightarrow> bool" where
  "isInsideQuotes wasInQuotes str =
     (let inQuotes = fold (quoteStep str) [0..<length str] False
      in if wasInQuotes then \<not> inQuotes else inQuotes)"

text \<open>\<open>str.substring(a, b)\<close>\<close>

definition substring :: "ustring \<Rightarrow> nat \<Rightarrow> nat \<Rightarrow> ustring" where
  "substring s a b = drop (min a b) (take (max a b) s)"

record encoderState =
  startIndex :: nat
  wasInQuotes :: bool

definition replaceNumbers ::
  "ustring \<Rightarrow> encoderState \<Rightarrow> ustring \<Rightarrow> nat \<Rightarrow> ustring \<times> encoderState" where
  "replaceNumbers viewString st m index =
     (let lookback = substring viewString (startIndex st) index;
          insideQuotes = isInsideQuotes (wasInQuotes st) lookback
      in (if insideQuotes then m else [DQUOTE, MARKER] @ m @ [DQUOTE],
          \<lparr>startIndex = index + length m, wasInQuotes = insideQuotes\<rparr>))"

text \<open>
  \<open>viewString.replace(numberFinder, replaceNumbers)\<close>: the text between the matches and
  what the callback returns for each match, called in order; \<open>pos\<close> is the end of the
  match before.
\<close>

fun replaceLoop :: "ustring \<Rightarrow> (nat \<times> ustring) list \<Rightarrow> nat \<Rightarrow> encoderState \<Rightarrow> ustring" where
  "replaceLoop viewString [] pos st = drop pos viewString"
| "replaceLoop viewString ((index, m) # ms) pos st =
     (case replaceNumbers viewString st m index of
        (replacement, st') \<Rightarrow>
          substring viewString pos index @ replacement @
          replaceLoop viewString ms (index + length m) st')"

definition safeStringEncodeNums :: "ustring \<Rightarrow> ustring" where
  "safeStringEncodeNums jsonString =
     (let viewString = replaceAll MARKER [MARKER, MARKER] jsonString
      in replaceLoop viewString (findMatches viewString 0) 0
           \<lparr>startIndex = 0, wasInQuotes = False\<rparr>)"

text \<open>What the successive calls of \<open>isInsideQuotes\<close> return during that replacement.\<close>

fun insideQuotesTrace :: "ustring \<Rightarrow> (nat \<times> ustring) list \<Rightarrow> encoderState \<Rightarrow> bool list" where
  "insideQuotesTrace viewString [] st = []"
| "insideQuotesTrace viewString ((index, m) # ms) st =
     (case replaceNumbers viewString st m index of
        (replacement, st') \<Rightarrow> wasInQuotes st' # insideQuotesTrace viewString ms st')"

section \<open>The platform: JSON.parse\<close>

text \<open>
  \<open>JSON.parse\<close> of ECMA-262 on the JSON grammar of ECMA-404: white space is space, tab,
  line feed and carriage return; a string holds no control character, and its escapes
  are the eight two-character ones and \<open>\uXXXX\<close>; a number follows the grammar that
  \<open>matchNumber\<close> recognises. A property is defined as \<open>CreateDataProperty\<close> does: a
  repeated key keeps its place and takes the later value. A syntax error is \<open>None\<close>. How
  a number literal becomes a number, and that number its text, is the parameter
  \<open>toNumber\<close> (the rounding to a double is not modelled). Objects and arrays nest, so
  the parser runs on fuel; the length of the text is enough.
\<close>

definition isJSONWhiteSpace :: "nat \<Rightarrow> bool" where
  "isJSONWhiteSpace c = (c = 32 \<or> c = 9 \<or> c = 10 \<or> c = 13)"

definition skipWS :: "ustring \<Rightarrow> ustring" where
  "skipWS s = dropWhile isJSONWhiteSpace s"

definition hexValue :: "nat \<Rightarrow> nat option" where
  "hexValue c =
     (if 48 \<le> c \<and> c \<le> 57 then Some (c - 48)
      else if 65 \<le> c \<and> c \<le> 70 then Some (c - 55)
      else if 97 \<le> c \<and> c \<le> 102 then Some (c - 87)
      else None)"

definition hex4 :: "nat \<Rightarrow> nat \<Rightarrow> nat \<Rightarrow> nat \<Rightarrow> nat option" where
  "hex4 a b c d =
     (case (hexValue a, hexValue b, hexValue c, hexValue d) of
        (Some p, Some q, Some r, Some s) \<Rightarrow> Some (4096 * p + 256 * q + 16 * r + s)
      | _ \<Rightarrow> None)"

definition simpleEscape :: "nat \<Rightarrow> nat option" where
  "simpleEscape e =
     (if e = DQUOTE then Some DQUOTE
      else if e = BACKSLASH then Some BACKSLASH
      else if e = 47 then Some 47
      else if e = 98 then Some 8
      else if e = 102 then Some 12
      else if e = 110 then Some 10
      else if e = 114 then Some 13
      else if e = 116 then Some 9
      else None)"

fun parseString :: "ustring \<Rightarrow> ustring \<Rightarrow> (ustring \<times> ustring) option" where
  "parseString [] acc = None"
| "parseString (c # cs) acc =
     (if c = DQUOTE then Some (acc, cs)
      else if c = BACKSLASH then
        (case cs of
           [] \<Rightarrow> None
         | e # r \<Rightarrow>
             if e = 117 then
               (case r of
                  h1 # h2 # h3 # h4 # r' \<Rightarrow>
                    (case hex4 h1 h2 h3 h4 of
                       None \<Rightarrow> None
                     | Some u \<Rightarrow> parseString r' (acc @ [u]))
                | _ \<Rightarrow> None)
             else
               (case simpleEscape e of
                  None \<Rightarrow> None
                | Some u \<Rightarrow> parseString r (acc @ [u])))
      else if c < 32 then None
      else parseString cs (acc @ [c]))"

fun defineProperty :: "(ustring \<times> 'a) list \<Rightarrow> ustring \<Rightarrow> 'a \<Rightarrow> (ustring \<times> 'a) list" where
  "defineProperty [] k v = [(k, v)]"
| "defineProperty ((k', v') # ps) k v =
     (if k' = k then (k, v) # ps else (k', v') # defineProperty ps k v)"

fun parseValue :: "(ustring \<Rightarrow> ustring) \<Rightarrow> nat \<Rightarrow> ustring \<Rightarrow> (jsvalue \<times> ustring) option"
and parseElements ::
  "(ustring \<Rightarrow> ustring) \<Rightarrow> nat \<Rightarrow> ustring \<Rightarrow> jsvalue list \<Rightarrow> (jsvalue \<times> ustring) option"
and parseMembers ::
  "(ustring \<Rightarrow> ustring) \<Rightarrow> nat \<Rightarrow> ustring \<Rightarrow> (ustring \<times> jsvalue) list \<Rightarrow>
   (jsvalue \<times> ustring) option"
where
  "parseValue toNumber 0 s = None"
| "parseValue toNumber (Suc fuel) s =
     (case skipWS s of
        [] \<Rightarrow> None
      | c # r \<Rightarrow>
          if c = 123 then
            (case skipWS r of
               [] \<Rightarrow> None
             | c' # r' \<Rightarrow> if c' = 125 then Some (JObject [], r')
                          else parseMembers toNumber fuel r [])
          else if c = 91 then
            (case skipWS r of
               [] \<Rightarrow> None
             | c' # r' \<Rightarrow> if c' = 93 then Some (JArray [], r')
                          else parseElements toNumber fuel r [])
          else if c = DQUOTE then
            (case parseString r [] of
               None \<Rightarrow> None
             | Some (v, r') \<Rightarrow> Some (JString v, r'))
          else if take 4 (c # r) = ustr ''true'' then Some (JBool True, drop 4 (c # r))
          else if take 5 (c # r) = ustr ''false'' then Some (JBool False, drop 5 (c # r))
          else if take 4 (c # r) = ustr ''null'' then Some (JNull, drop 4 (c # r))
          else
            (case matchNumber (c # r) of
               None \<Rightarrow> None
             | Some n \<Rightarrow> Some (JNumber (toNumber (take n (c # r))), drop n (c # r))))"
| "parseElements toNumber 0 s acc = None"
| "parseElements toNumber (Suc fuel) s acc =
     (case parseValue toNumber fuel s of
        None \<Rightarrow> None
      | Some (v, r) \<Rightarrow>
          (case skipWS r of
             [] \<Rightarrow> None
           | c # r' \<Rightarrow>
               if c = 44 then parseElements toNumber fuel r' (acc @ [v])
               else if c = 93 then Some (JArray (acc @ [v]), r')
               else None))"
| "parseMembers toNumber 0 s acc = None"
| "parseMembers toNumber (Suc fuel) s acc =
     (case skipWS s of
        [] \<Rightarrow> None
      | q # r \<Rightarrow>
          if q \<noteq> DQUOTE then None
          else
            (case parseString r [] of
               None \<Rightarrow> None
             | Some (k, r1) \<Rightarrow>
                 (case skipWS r1 of
                    [] \<Rightarrow> None
                  | c # r2 \<Rightarrow>
                      if c \<noteq> 58 then None
                      else
                        (case parseValue toNumber fuel r2 of
                           None \<Rightarrow> None
                         | Some (v, r3) \<Rightarrow>
                             (case skipWS r3 of
                                [] \<Rightarrow> None
                              | d # r4 \<Rightarrow>
                                  if d = 44 then
                                    parseMembers toNumber fuel r4 (defineProperty acc k v)
                                  else if d = 125 then
                                    Some (JObject (defineProperty acc k v), r4)
                                  else None)))))"

definition JSON_parse :: "(ustring \<Rightarrow> ustring) \<Rightarrow> ustring \<Rightarrow> jsvalue option" where
  "JSON_parse toNumber txt =
     (case parseValue toNumber (Suc (length txt)) txt of
        None \<Rightarrow> None
      | Some (v, r) \<Rightarrow> if skipWS r = [] then Some v else None)"

section \<open>Reference definitions\<close>

text \<open>
  Quote parity as the specification words it: one pass over the characters that counts
  the run of backslashes immediately before the current character; a double quote
  toggles the inside-string flag unless that run is odd. The state is the flag and the
  length of the run.
\<close>


definition parityStep :: "nat \<Rightarrow> bool \<times> nat \<Rightarrow> bool \<times> nat" where
  "parityStep c st =
     (if c = BACKSLASH then (fst st, Suc (snd st))
      else if c = DQUOTE then (if odd (snd st) then fst st else \<not> fst st, 0)
      else (fst st, 0))"

definition parityScan :: "ustring \<Rightarrow> bool \<times> nat \<Rightarrow> bool \<times> nat" where
  "parityScan s st = fold parityStep s st"

definition insideStringAt :: "ustring \<Rightarrow> nat \<Rightarrow> bool" where
  "insideStringAt txt index = fst (parityScan (take index txt) (False, 0))"

text \<open>
  The encoder as the specification describes it: the matches of the number pattern from
  left to right, the parity tracked over the text consumed so far; a match outside a
  string is wrapped, a match inside a string is left as it is.
\<close>

function encodeSpec :: "bool \<times> nat \<Rightarrow> ustring \<Rightarrow> ustring" where
  "encodeSpec st [] = []"
| "encodeSpec st (c # cs) =
     (case matchNumber (c # cs) of
        None \<Rightarrow> c # encodeSpec (parityStep c st) cs
      | Some n \<Rightarrow>
          (if fst st then take n (c # cs) else [DQUOTE, MARKER] @ take n (c # cs) @ [DQUOTE]) @
          encodeSpec (parityScan (take n (c # cs)) st) (drop n (c # cs)))"
  by pat_completeness auto
termination
proof (relation "measure (\<lambda>(st, s). length s)")
  show "wf (measure (\<lambda>(st, s). length s))" by simp
next
  fix st :: "bool \<times> nat" and c :: nat and cs :: ustring
  show "((parityStep c st, cs), (st, c # cs)) \<in> measure (\<lambda>(st, s). length s)" by simp
next
  fix st :: "bool \<times> nat" and c :: nat and cs :: ustring and n :: nat
  assume "matchNumber (c # cs) = Some n"
  then have "0 < n"
    by (auto simp: matchNumber_def Let_def split: if_splits)
  then show "((parityScan (take n (c # cs)) st, drop n (c # cs)), (st, c # cs))
      \<in> measure (\<lambda>(st, s). length s)"
    by simp
qed

text \<open>The characters a match of the number pattern can contain.\<close>

definition isNumberChar :: "nat \<Rightarrow> bool" where
  "isNumberChar c = (isDigit c \<or> c = 45 \<or> c = 43 \<or> c = 46 \<or> c = 101 \<or> c = 69)"


text \<open>
  What \<open>htmlEncode\<close> makes of one character, and the texts in which no \<open>"\<close>, \<open><\<close> or
  \<open>>\<close> occurs and every \<open>&\<close> starts one of the four entities.
\<close>


definition htmlEntity :: "nat \<Rightarrow> ustring" where
  "htmlEntity c =
     (if c = 38 then ustr ''&amp;'' else if c = 34 then ustr ''&quot;''
      else if c = 60 then ustr ''&lt;'' else if c = 62 then ustr ''&gt;'' else [c])"

definition startsEntity :: "ustring \<Rightarrow> bool" where
  "startsEntity s =
     list_ex (\<lambda>e. take (length e) s = e) [ustr ''amp;'', ustr ''quot;'', ustr ''lt;'', ustr ''gt;'']"

fun htmlNeutral :: "ustring \<Rightarrow> bool" where
  "htmlNeutral [] = True"
| "htmlNeutral (c # cs) =
     (c \<noteq> 34 \<and> c \<noteq> 60 \<and> c \<noteq> 62 \<and> (if c = 38 then startsEntity cs else True) \<and> htmlNeutral cs)"

text \<open>A text that the number pattern matches as a whole: a JSON number literal.\<close>

definition isNumberLiteral :: "ustring \<Rightarrow> bool" where
  "isNumberLiteral s = (matchNumber s = Some (length s))"



text \<open>
  The markup of the formatter's templates, and the fragments made of that markup and of
  neutral text only: in such a fragment every \<open>"\<close>, \<open><\<close> and \<open>>\<close> belongs to a
  template.
\<close>

definition markupTokens :: "ustring list" where
  \<open>markupTokens =
     [ustr ''<span class="'', ustr ''">'', ustr ''</span>'', ustr ''<li>'', ustr ''</li>'',
      ustr ''<span class="collapser"></span>'', ustr ''[<ul class="array collapsible">'',
      ustr ''</ul>]'',
      ustr ''<span class="collapser"></span>{<ul class="obj collapsible">'', ustr ''</ul>}'',
      ustr ''<li><span class="prop'', ustr ''" title="'',
      ustr ''"><span class="q">&quot;</span>'', ustr ''<span class="q">&quot;</span></span>: '',
      ustr ''<a href="'', ustr ''<span class="q">&quot;</span></a>'',
      ustr ''<span class="string">&quot;'', ustr ''&quot;</span>'',
      ustr ''<span class="errorline">'', ustr ''<span class="errorcolumn">'']\<close>

inductive safeFragment :: "ustring \<Rightarrow> bool" where
  safe_empty: "safeFragment []"
| safe_text: "htmlNeutral t \<Longrightarrow> safeFragment r \<Longrightarrow> safeFragment (t @ r)"
| safe_markup: "m \<in> set markupTokens \<Longrightarrow> safeFragment r \<Longrightarrow> safeFragment (m @ r)"

text \<open>
  JSON documents as the grammar generates them: every text the grammar accepts is
  \<open>printDoc d\<close> for a well-formed \<open>d\<close>. A string is the list of its items (a character
  written as it is, a two-character escape, a \<open>\uXXXX\<close> escape), a number is its literal,
  white space stands where the grammar allows it. \<open>valueOf\<close> is the value the document
  denotes, \<open>encodeDoc\<close> the document the encoder is to produce: every number the string
  of the marker and its literal, every marker written literally in a string doubled.
\<close>

datatype strItem = Plain nat | Escape nat | UEscape nat nat nat nat

fun printItem :: "strItem \<Rightarrow> ustring" where
  "printItem (Plain c) = [c]"
| "printItem (Escape e) = [BACKSLASH, e]"
| "printItem (UEscape a b c d) = [BACKSLASH, 117, a, b, c, d]"

fun itemValue :: "strItem \<Rightarrow> nat" where
  "itemValue (Plain c) = c"
| "itemValue (Escape e) = (case simpleEscape e of None \<Rightarrow> e | Some u \<Rightarrow> u)"
| "itemValue (UEscape a b c d) = (case hex4 a b c d of None \<Rightarrow> 0 | Some u \<Rightarrow> u)"

fun itemOK :: "strItem \<Rightarrow> bool" where
  "itemOK (Plain c) = (32 \<le> c \<and> c \<noteq> DQUOTE \<and> c \<noteq> BACKSLASH)"
| "itemOK (Escape e) = (simpleEscape e \<noteq> None)"
| "itemOK (UEscape a b c d) = (hex4 a b c d \<noteq> None)"

definition printString :: "strItem list \<Rightarrow> ustring" where
  "printString items = [DQUOTE] @ concat (map printItem items) @ [DQUOTE]"

datatype dkey = DKey ustring "strItem list" ustring

fun printKey :: "dkey \<Rightarrow> ustring" where
  "printKey (DKey w1 items w2) = w1 @ printString items @ w2 @ [58]"

fun keyOK :: "dkey \<Rightarrow> bool" where
  "keyOK (DKey w1 items w2) =
     (list_all isJSONWhiteSpace w1 \<and> list_all itemOK items \<and> list_all isJSONWhiteSpace w2)"

fun keyValue :: "dkey \<Rightarrow> ustring" where
  "keyValue (DKey w1 items w2) = map itemValue items"

datatype jdoc =
    DNull
  | DBool bool
  | DNumber ustring
  | DString "strItem list"
  | DArray ustring "jdoc list"
  | DObject ustring "(dkey \<times> jdoc) list"
  | Padded ustring jdoc ustring

fun commaJoin :: "ustring list \<Rightarrow> ustring" where
  "commaJoin [] = []"
| "commaJoin [x] = x"
| "commaJoin (x # y # ys) = x @ [44] @ commaJoin (y # ys)"

primrec printDoc :: "jdoc \<Rightarrow> ustring" where
  "printDoc DNull = ustr ''null''"
| "printDoc (DBool b) = (if b then ustr ''true'' else ustr ''false'')"
| "printDoc (DNumber lit) = lit"
| "printDoc (DString items) = printString items"
| "printDoc (DArray ws es) = [91] @ (if es = [] then ws else commaJoin (map printDoc es)) @ [93]"
| "printDoc (DObject ws ms) =
     [123] @
     (if ms = [] then ws
      else commaJoin (map (\<lambda>(k, t). printKey k @ t) (map (map_prod id printDoc) ms))) @
     [125]"
| "printDoc (Padded w1 d w2) = w1 @ printDoc d @ w2"

primrec wellFormed :: "jdoc \<Rightarrow> bool" where
  "wellFormed DNull = True"
| "wellFormed (DBool b) = True"
| "wellFormed (DNumber lit) = isNumberLiteral lit"
| "wellFormed (DString items) = list_all itemOK items"
| "wellFormed (DArray ws es) =
     (list_all isJSONWhiteSpace ws \<and> list_all (\<lambda>ok. ok) (map wellFormed es))"
| "wellFormed (DObject ws ms) =
     (list_all isJSONWhiteSpace ws \<and>
      list_all (\<lambda>(k, ok). keyOK k \<and> ok) (map (map_prod id wellFormed) ms))"
| "wellFormed (Padded w1 d w2) =
     (list_all isJSONWhiteSpace w1 \<and> wellFormed d \<and> list_all isJSONWhiteSpace w2)"

definition objectOf :: "(ustring \<times> 'a) list \<Rightarrow> (ustring \<times> 'a) list" where
  "objectOf ms = foldl (\<lambda>acc (k, v). defineProperty acc k v) [] ms"

primrec valueOf :: "(ustring \<Rightarrow> ustring) \<Rightarrow> jdoc \<Rightarrow> jsvalue" where
  "valueOf toNumber DNull = JNull"
| "valueOf toNumber (DBool b) = JBool b"
| "valueOf toNumber (DNumber lit) = JNumber (toNumber lit)"
| "valueOf toNumber (DString items) = JString (map itemValue items)"
| "valueOf toNumber (DArray ws es) = JArray (map (valueOf toNumber) es)"
| "valueOf toNumber (DObject ws ms) =
     JObject (objectOf (map (map_prod keyValue (valueOf toNumber)) ms))"
| "valueOf toNumber (Padded w1 d w2) = valueOf toNumber d"

fun doubleItem :: "strItem \<Rightarrow> strItem list" where
  "doubleItem (Plain c) = (if c = MARKER then [Plain MARKER, Plain MARKER] else [Plain c])"
| "doubleItem (Escape e) = [Escape e]"
| "doubleItem (UEscape a b c d) = [UEscape a b c d]"

fun encodeKey :: "dkey \<Rightarrow> dkey" where
  "encodeKey (DKey w1 items w2) = DKey w1 (concat (map doubleItem items)) w2"

primrec encodeDoc :: "jdoc \<Rightarrow> jdoc" where
  "encodeDoc DNull = DNull"
| "encodeDoc (DBool b) = DBool b"
| "encodeDoc (DNumber lit) = DString (Plain MARKER # map Plain lit)"
| "encodeDoc (DString items) = DString (concat (map doubleItem items))"
| "encodeDoc (DArray ws es) = DArray ws (map encodeDoc es)"
| "encodeDoc (DObject ws ms) = DObject ws (map (map_prod encodeKey encodeDoc) ms)"
| "encodeDoc (Padded w1 d w2) = Padded w1 (encodeDoc d) w2"

text \<open>
  Auxiliary notions of the proofs about the parser on documents: the white space that
  ends a document, the fuel a document needs, and the texts that may follow a number
  (the number pattern is greedy, so the next character is none of a number's).
\<close>

primrec trail :: "jdoc \<Rightarrow> ustring" where
  "trail DNull = []"
| "trail (DBool b) = []"
| "trail (DNumber lit) = []"
| "trail (DString items) = []"
| "trail (DArray ws es) = []"
| "trail (DObject ws ms) = []"
| "trail (Padded w1 d w2) = trail d @ w2"

primrec need :: "jdoc \<Rightarrow> nat" where
  "need DNull = 1"
| "need (DBool b) = 1"
| "need (DNumber lit) = 1"
| "need (DString items) = 1"
| "need (DArray ws es) = Suc (sum_list (map Suc (map need es)))"
| "need (DObject ws ms) = Suc (sum_list (map (\<lambda>(k, n). Suc n) (map (map_prod id need) ms)))"
| "need (Padded w1 d w2) = need d"

definition restOK :: "ustring \<Rightarrow> bool" where
  "restOK r = (case r of [] \<Rightarrow> True | c # cs \<Rightarrow> \<not> isNumberChar c)"

abbreviation printMember :: "dkey \<times> ustring \<Rightarrow> ustring" where
  "printMember \<equiv> (\<lambda>(k, t). printKey k @ t)"

text \<open>Auxiliary notions of the proofs about the encoder on documents.\<close>

definition isPlainChar :: "nat \<Rightarrow> bool" where
  "isPlainChar c = (c \<noteq> DQUOTE \<and> c \<noteq> BACKSLASH \<and> c \<noteq> 45 \<and> \<not> isDigit c)"

fun staysInside :: "bool \<times> nat \<Rightarrow> ustring \<Rightarrow> bool" where
  "staysInside st [] = fst st"
| "staysInside st (c # cs) = (fst st \<and> staysInside (parityStep c st) cs)"

abbreviation doubled :: "ustring \<Rightarrow> ustring" where
  "doubled s \<equiv> replaceAll MARKER [MARKER, MARKER] s"

section \<open>Verified properties\<close>

subsection \<open>Escaping for HTML\<close>

lemma replaceAll_append: "replaceAll c r (a @ b) = replaceAll c r a @ replaceAll c r b"
  by (simp add: replaceAll_def)

lemma replaceAll_concat:
  "replaceAll c r (concat (map f t)) = concat (map (\<lambda>x. replaceAll c r (f x)) t)"
  by (induction t) (simp_all add: replaceAll_append, simp add: replaceAll_def)

lemma htmlEntity_steps:
  "replaceAll 62 (ustr ''&gt;'') (replaceAll 60 (ustr ''&lt;'') (replaceAll 34 (ustr ''&quot;'')
     (if x = 38 then ustr ''&amp;'' else [x]))) = htmlEntity x"
  by (simp add: replaceAll_def htmlEntity_def ustr_def)

lemma htmlEncode_single_pass: "htmlEncode t = concat (map htmlEntity t)"
proof -
  have "htmlEncode t = replaceAll 62 (ustr ''&gt;'') (replaceAll 60 (ustr ''&lt;'')
      (replaceAll 34 (ustr ''&quot;'') (concat (map (\<lambda>x. if x = 38 then ustr ''&amp;'' else [x]) t))))"
    by (simp add: htmlEncode_def replaceAll_def)
  also have "\<dots> = concat (map htmlEntity t)"
    by (simp only: replaceAll_concat htmlEntity_steps)
  finally show ?thesis .
qed

lemma htmlNeutral_entity: "htmlNeutral r \<Longrightarrow> htmlNeutral (htmlEntity c @ r)"
  by (simp add: htmlEntity_def ustr_def startsEntity_def)

lemma htmlNeutral_htmlEncode: "htmlNeutral (htmlEncode t)"
  unfolding htmlEncode_single_pass
  by (induction t) (simp_all add: htmlNeutral_entity)

lemma jsString_eq: "jsString s = htmlEncode (quoteBody s)"
  by (simp add: jsString_def slice_1_m1_def JSON_stringify_def)

subsection \<open>The quote-parity scan of the encoder\<close>

lemma lookbackLoop_odd:
  "lookbackLoop xs b = (b \<noteq> odd (length (takeWhile (\<lambda>c. c = BACKSLASH) xs)))"
  by (induction xs arbitrary: b) auto

lemma parityScan_Nil [simp]: "parityScan [] st = st"
  by (simp add: parityScan_def)

lemma parityScan_Cons [simp]: "parityScan (c # cs) st = parityScan cs (parityStep c st)"
  by (simp add: parityScan_def)

lemma parityScan_append: "parityScan (a @ b) st = parityScan b (parityScan a st)"
  by (simp add: parityScan_def)

lemma parityScan_flip:
  "parityScan s (\<not> b, r) = (\<not> fst (parityScan s (b, r)), snd (parityScan s (b, r)))"
  by (induction s arbitrary: b r) (auto simp: parityStep_def)

lemma quoteStep_fold:
  "fold (quoteStep (pre @ rest)) [length pre..<length pre + length rest] b =
   fst (parityScan rest (b, length (takeWhile (\<lambda>c. c = BACKSLASH) (rev pre))))"
proof (induction rest arbitrary: pre b)
  case Nil
  then show ?case by simp
next
  case (Cons c cs)
  have upt: "[length pre..<length pre + length (c # cs)] =
      length pre # [length (pre @ [c])..<length (pre @ [c]) + length cs]"
    by (simp add: upt_rec)
  have step: "quoteStep (pre @ c # cs) (length pre) b =
      fst (parityStep c (b, length (takeWhile (\<lambda>c. c = BACKSLASH) (rev pre))))"
    by (auto simp: quoteStep_def parityStep_def lookbackLoop_odd)
  have run: "length (takeWhile (\<lambda>c. c = BACKSLASH) (rev (pre @ [c]))) =
      snd (parityStep c (b, length (takeWhile (\<lambda>c. c = BACKSLASH) (rev pre))))"
    by (simp add: parityStep_def)
  have "fold (quoteStep (pre @ c # cs)) [length pre..<length pre + length (c # cs)] b =
      fold (quoteStep ((pre @ [c]) @ cs)) [length (pre @ [c])..<length (pre @ [c]) + length cs]
        (quoteStep (pre @ c # cs) (length pre) b)"
    by (simp only: upt) simp
  also have "\<dots> = fst (parityScan cs (quoteStep (pre @ c # cs) (length pre) b,
      length (takeWhile (\<lambda>c. c = BACKSLASH) (rev (pre @ [c])))))"
    by (rule Cons.IH)
  also have "\<dots> = fst (parityScan (c # cs) (b, length (takeWhile (\<lambda>c. c = BACKSLASH) (rev pre))))"
    by (simp only: step run parityScan_Cons prod.collapse)
  finally show ?case .
qed

lemma isInsideQuotes_parityScan:
  "isInsideQuotes w str = fst (parityScan str (w, 0))"
proof -
  have "fold (quoteStep str) [0..<length str] False = fst (parityScan str (False, 0))"
    using quoteStep_fold [of "[]" str False] by simp
  then show ?thesis
    using parityScan_flip [of str False 0]
    by (cases w) (simp_all add: isInsideQuotes_def)
qed

lemma take_takeWhile: "take (length (takeWhile P xs)) xs = takeWhile P xs"
  by (simp add: takeWhile_eq_take [symmetric])

lemma digits_numberChars: "list_all isNumberChar (takeWhile isDigit r)"
proof -
  have "list_all isDigit (takeWhile isDigit r)"
    by (simp add: list_all_iff) (meson set_takeWhileD)
  then show ?thesis
    by (simp add: list_all_iff isNumberChar_def)
qed

lemma integerLength_le: "integerLength s \<le> length s"
  by (cases s) (auto simp: integerLength_def intro: le_trans [OF length_takeWhile_le])

lemma integerLength_chars: "list_all isNumberChar (take (integerLength s) s)"
  using digits_numberChars
  by (cases s) (auto simp: integerLength_def isNumberChar_def isDigit_def take_takeWhile)

lemma fractionLength_le: "fractionLength s \<le> length s"
  by (cases s) (auto simp: fractionLength_def intro: le_trans [OF length_takeWhile_le])

lemma fractionLength_chars: "list_all isNumberChar (take (fractionLength s) s)"
  using digits_numberChars
  by (cases s) (auto simp: fractionLength_def isNumberChar_def take_takeWhile)

lemma exponentLength_le: "exponentLength s \<le> length s"
  by (auto simp: exponentLength_def split: list.splits
      intro: le_trans [OF length_takeWhile_le])

lemma exponentLength_chars: "list_all isNumberChar (take (exponentLength s) s)"
  using digits_numberChars
  by (auto simp: exponentLength_def isNumberChar_def take_takeWhile split: list.splits)

lemma matchNumber_Some:
  assumes "matchNumber s = Some n"
  shows "0 < n" and "n \<le> length s" and "list_all isNumberChar (take n s)"
proof -
  define sg :: nat where "sg = (if s \<noteq> [] \<and> hd s = 45 then 1 else 0)"
  define ip where "ip = integerLength (drop sg s)"
  define fp where "fp = fractionLength (drop (sg + ip) s)"
  define ep where "ep = exponentLength (drop (sg + ip + fp) s)"
  from assms have ip: "ip \<noteq> 0" and n: "n = sg + ip + fp + ep"
    by (auto simp: matchNumber_def Let_def sg_def ip_def fp_def ep_def split: if_splits)
  show "0 < n" using ip n by simp
  have sg_le: "sg \<le> length s" by (cases s) (auto simp: sg_def)
  have ip_le: "ip \<le> length s - sg"
    using integerLength_le [of "drop sg s"] by (simp add: ip_def)
  have fp_le: "fp \<le> length s - (sg + ip)"
    using fractionLength_le [of "drop (sg + ip) s"] by (simp add: fp_def)
  have ep_le: "ep \<le> length s - (sg + ip + fp)"
    using exponentLength_le [of "drop (sg + ip + fp) s"] by (simp add: ep_def)
  show "n \<le> length s" using sg_le ip_le fp_le ep_le ip n by linarith
  have split: "take n s = take sg s @ take ip (drop sg s) @ take fp (drop (sg + ip) s) @
      take ep (drop (sg + ip + fp) s)"
    unfolding n by (simp only: take_add append_assoc)
  have "list_all isNumberChar (take sg s)"
    by (cases s) (auto simp: sg_def isNumberChar_def)
  then show "list_all isNumberChar (take n s)"
    unfolding split
    using integerLength_chars [of "drop sg s"] fractionLength_chars [of "drop (sg + ip) s"]
      exponentLength_chars [of "drop (sg + ip + fp) s"]
    by (simp add: ip_def fp_def ep_def)
qed

lemma parityScan_number:
  "list_all isNumberChar m \<Longrightarrow> m \<noteq> [] \<Longrightarrow> parityScan m st = (fst st, 0)"
proof (induction m arbitrary: st)
  case Nil
  then show ?case by simp
next
  case (Cons c cs)
  then have c: "parityStep c st = (fst st, 0)"
    by (auto simp: parityStep_def isNumberChar_def isDigit_def)
  show ?case
  proof (cases cs)
    case Nil
    then show ?thesis using c by simp
  next
    case (Cons d ds)
    then show ?thesis using Cons.IH [of "(fst st, 0)"] Cons.prems c by simp
  qed
qed

lemma parityScan_match:
  "matchNumber s = Some n \<Longrightarrow> parityScan (take n s) st = (fst st, 0)"
  using matchNumber_Some [of s n] parityScan_number [of "take n s" st]
  by (cases s) auto


lemma lookback_prefix:
  "a \<le> i \<Longrightarrow> take a v @ substring v a i = take i v"
proof -
  assume "a \<le> i"
  then have "take a v = take a (take i v)" by (simp add: min_def)
  then show ?thesis
    using \<open>a \<le> i\<close> append_take_drop_id [of a "take i v"]
    by (simp add: substring_def min_def max_def)
qed

lemma callback_flag:
  assumes "a \<le> i" and "parityScan (take a v) (False, 0) = (w, 0)"
  shows "isInsideQuotes w (substring v a i) = insideStringAt v i"
proof -
  have "fst (parityScan (substring v a i) (w, 0)) =
      fst (parityScan (take a v @ substring v a i) (False, 0))"
    by (simp add: parityScan_append assms(2))
  then show ?thesis
    by (simp add: isInsideQuotes_parityScan insideStringAt_def lookback_prefix [OF assms(1)])
qed

lemma after_match:
  assumes "matchNumber (drop i v) = Some n"
  shows "parityScan (take (i + n) v) (False, 0) = (insideStringAt v i, 0)"
proof -
  have "take (i + n) v = take i v @ take n (drop i v)" by (simp add: take_add)
  then show ?thesis
    by (simp add: parityScan_append parityScan_match [OF assms] insideStringAt_def)
qed

lemma trace_invariant:
  "s = drop i v \<Longrightarrow> i \<le> length v \<Longrightarrow> a \<le> i \<Longrightarrow>
   parityScan (take a v) (False, 0) = (w, 0) \<Longrightarrow>
   insideQuotesTrace v (findMatches s i) \<lparr>startIndex = a, wasInQuotes = w\<rparr> =
   map (\<lambda>(index, m). insideStringAt v index) (findMatches s i)"
proof (induction s i arbitrary: a w rule: findMatches.induct)
  case (1 i)
  then show ?case by simp
next
  case (2 c cs i)
  have lt: "i < length v" using "2.prems"(1,2)
    by (metis drop_all le_antisym linorder_not_le list.distinct(1))
  have cs: "cs = drop (Suc i) v" using "2.prems"(1)
    by (metis drop_Suc list.sel(3) tl_drop)
  show ?case
  proof (cases "matchNumber (c # cs)")
    case None
    then show ?thesis
      using "2.IH"(1) [OF None cs _ _ "2.prems"(4)] lt "2.prems"(3) by simp
  next
    case (Some n)
    have m: "matchNumber (drop i v) = Some n" using Some "2.prems"(1) by simp
    have n: "n \<le> length (drop i v)" by (rule matchNumber_Some(2) [OF m])
    have len: "min (Suc (length cs)) n = n"
      using matchNumber_Some(2) [OF Some] by simp
    have flag: "isInsideQuotes w (substring v a i) = insideStringAt v i"
      by (rule callback_flag [OF "2.prems"(3,4)])
    have rest: "drop n (c # cs) = drop (i + n) v"
      using "2.prems"(1) by (simp add: add.commute)
    have "insideQuotesTrace v (findMatches (drop n (c # cs)) (i + n))
        \<lparr>startIndex = i + n, wasInQuotes = insideStringAt v i\<rparr> =
        map (\<lambda>(index, m). insideStringAt v index) (findMatches (drop n (c # cs)) (i + n))"
      using "2.IH"(2) [OF Some rest _ _ after_match [OF m]] n lt by simp
    then show ?thesis
      using Some by (simp add: replaceNumbers_def Let_def flag len)
  qed
qed

lemma replaceLoop_invariant:
  "s = drop i v \<Longrightarrow> i \<le> length v \<Longrightarrow> a \<le> i \<Longrightarrow>
   parityScan (take a v) (False, 0) = (w, 0) \<Longrightarrow>
   replaceLoop v (findMatches s i) a \<lparr>startIndex = a, wasInQuotes = w\<rparr> =
   substring v a i @ encodeSpec (parityScan (substring v a i) (w, 0)) s"
proof (induction s i arbitrary: a w rule: findMatches.induct)
  case (1 i)
  then have "i = length v" by simp
  then show ?case using "1.prems" by (simp add: substring_def min_def max_def)
next
  case (2 c cs i)
  have lt: "i < length v" using "2.prems"(1,2)
    by (metis drop_all le_antisym linorder_not_le list.distinct(1))
  have cs: "cs = drop (Suc i) v" using "2.prems"(1)
    by (metis drop_Suc list.sel(3) tl_drop)
  have c: "v ! i = c" using "2.prems"(1) lt
    by (metis Cons_nth_drop_Suc list.inject)
  show ?case
  proof (cases "matchNumber (c # cs)")
    case None
    have ext: "substring v a (Suc i) = substring v a i @ [c]"
      using "2.prems"(3) lt c
      by (simp add: substring_def min_def max_def take_Suc_conv_app_nth)
    show ?thesis
      using "2.IH"(1) [OF None cs _ _ "2.prems"(4), of ] lt "2.prems"(3) None
      by (simp add: ext parityScan_append)
  next
    case (Some n)
    have m: "matchNumber (drop i v) = Some n" using Some "2.prems"(1) by simp
    have n: "n \<le> length (drop i v)" by (rule matchNumber_Some(2) [OF m])
    have len: "min (Suc (length cs)) n = n"
      using matchNumber_Some(2) [OF Some] by simp
    have flag: "isInsideQuotes w (substring v a i) = insideStringAt v i"
      by (rule callback_flag [OF "2.prems"(3,4)])
    have st: "fst (parityScan (substring v a i) (w, 0)) = insideStringAt v i"
      using flag by (simp add: isInsideQuotes_parityScan)
    have rest: "drop n (c # cs) = drop (i + n) v"
      using "2.prems"(1) by (simp add: add.commute)
    have ih: "replaceLoop v (findMatches (drop n (c # cs)) (i + n)) (i + n)
        \<lparr>startIndex = i + n, wasInQuotes = insideStringAt v i\<rparr> =
        encodeSpec (insideStringAt v i, 0) (drop n (c # cs))"
      using "2.IH"(2) [OF Some rest _ _ after_match [OF m]] n lt
      by (simp add: substring_def)
    have spec: "encodeSpec (parityScan (substring v a i) (w, 0)) (c # cs) =
        (if insideStringAt v i then take n (c # cs)
         else [DQUOTE, MARKER] @ take n (c # cs) @ [DQUOTE]) @
        encodeSpec (insideStringAt v i, 0) (drop n (c # cs))"
      by (simp add: Some parityScan_match [OF Some] st)
    show ?thesis
      unfolding spec
      using Some by (simp add: replaceNumbers_def Let_def flag len ih del: encodeSpec.simps)
  qed
qed

lemmas number_eval =
  matchNumber_def integerLength_def fractionLength_def exponentLength_def isDigit_def
  parityStep_def



text \<open>
  Claim C5. The inside-string classifications that the successive callbacks compute, each
  from the text since the previous match and the remembered parity, are the
  classifications that one scan of the whole prefix before the match gives, started at
  offset 0 outside a string.
\<close>

theorem incremental_scan_equals_scan_from_start:
  "insideQuotesTrace viewString (findMatches viewString 0)
     \<lparr>startIndex = 0, wasInQuotes = False\<rparr> =
   map (\<lambda>(index, m). isInsideQuotes False (substring viewString 0 index))
     (findMatches viewString 0)"
proof -
  have "\<And>index. isInsideQuotes False (substring viewString 0 index) =
      insideStringAt viewString index"
    by (simp add: isInsideQuotes_parityScan insideStringAt_def substring_def)
  then show ?thesis
    using trace_invariant [of viewString 0 viewString 0 False] by simp
qed

theorem incremental_scan_equals_scan_from_start_witness:
  \<open>insideQuotesTrace (ustr ''{"a1'' @ [BACKSLASH, DQUOTE] @ ustr ''2": [3, "4"]}'')
     (findMatches (ustr ''{"a1'' @ [BACKSLASH, DQUOTE] @ ustr ''2": [3, "4"]}'') 0)
     \<lparr>startIndex = 0, wasInQuotes = False\<rparr> = [True, True, False, True]\<close>
  using incremental_scan_equals_scan_from_start
    [of \<open>ustr ''{"a1'' @ [BACKSLASH, DQUOTE] @ ustr ''2": [3, "4"]}''\<close>]
  by (simp add: isInsideQuotes_parityScan substring_def ustr_def number_eval)

subsection \<open>The formatter\<close>

lemmas render_eval =
  ustr_def htmlEncode_def replaceAll_def decorateWithSpan_def jsString_def JSON_stringify_def
  slice_1_m1_def quoteUnit_def unicodeEscape_def hexDigit_def isHighSurrogate_def
  isLowSurrogate_def isBareProp_def isBareStart_def isBareRest_def isDigit_def
  isWhiteSpace_def trimString_def isNaN_string_def isStrDecimalLiteral_def
  isStrUnsignedDecimalLiteral_def isExponentPart_def isNonDecimalIntegerLiteral_def
  isHexDigit_def isLinkString_def toLowerAscii_def arrayIndex_def indexOf_def forInKeys_def
  arrayToHTML_def objectItem_def objectToHTML_def stringToHTML_def Let_def

lemma slice_stringify [simp]: "slice_1_m1 (JSON_stringify s) = quoteBody s"
  by (simp add: slice_1_m1_def JSON_stringify_def)

text \<open>
  Claim C3 fails as stated: the empty text and \<open>" 12 "\<close> are no JSON number literals,
  yet the marker followed by either is rendered as a bare numeric token.
\<close>

theorem marker_string_permissive_counterexample:
  \<open>\<not> isNumberLiteral [] \<and>
   valueToHTML (JString [MARKER]) (ustr ''<root>'') = ustr ''<span class="num"></span>'' \<and>
   \<not> isNumberLiteral (ustr '' 12 '') \<and>
   valueToHTML (JString (MARKER # ustr '' 12 '')) (ustr ''<root>'') =
     ustr ''<span class="num"> 12 </span>''\<close>
  by (simp add: isNumberLiteral_def number_eval render_eval)

lemma stringToHTML_not_num: "stringToHTML v \<noteq> decorateWithSpan x (ustr ''num'')"
  by (simp add: stringToHTML_def decorateWithSpan_def ustr_def)

text \<open>
  Claim C3, amended. For every string value that begins with the marker and whose
  remainder is not a number under the numeric coercion of strings (\<open>isNaN\<close> of the
  remainder holds), the formatter emits the string token of an ordinary string and no
  numeric token.
\<close>

theorem marker_string_not_numeric_renders_quoted:
  "isNaN_string r \<Longrightarrow>
   valueToHTML (JString (MARKER # r)) path = stringToHTML (MARKER # r) \<and>
   (\<forall>x. valueToHTML (JString (MARKER # r)) path \<noteq> decorateWithSpan x (ustr ''num''))"
  by (simp add: stringToHTML_not_num)

theorem marker_string_not_numeric_renders_quoted_witness:
  \<open>isNaN_string (ustr ''12a'') \<and>
   valueToHTML (JString (MARKER # ustr ''12a'')) (ustr ''<root>'') =
     ustr ''<span class="string">&quot;'' @ [MARKER] @ ustr ''12a&quot;</span>''\<close>
proof -
  have n: "isNaN_string (ustr ''12a'')" by (simp add: render_eval)
  show ?thesis
    using n marker_string_not_numeric_renders_quoted [OF n, of "ustr ''<root>''"] by (simp add: render_eval)
qed

lemma htmlEncode_Nil [simp]: "htmlEncode [] = []"
  by (simp add: htmlEncode_def replaceAll_def)

lemma map_of_renderers:
  "map_of (map (map_prod id f) json) prop = map_option f (map_of json prop)"
  by (induction json) auto


text \<open>
  Claim C10. For a key that is not a bare identifier the list item carries the class
  \<open>prop quoted\<close> and an empty title, and the value of the key is rendered with the
  empty path: nothing of the parent's path enters the item.
\<close>

theorem non_bare_key_resets_path:
  \<open>\<not> isBareProp prop \<Longrightarrow> map_of json prop = Some v \<Longrightarrow>
   objectItem (map (map_prod id valueToHTML) json) prop numProps path =
   ustr ''<li><span class="prop quoted" title=""><span class="q">&quot;</span>'' @
   jsString prop @ ustr ''<span class="q">&quot;</span></span>: '' @ valueToHTML v [] @
   (if numProps > 1 then ustr '','' else []) @ ustr ''</li>''\<close>
  by (simp add: objectItem_def map_of_renderers Let_def ustr_def htmlEncode_def replaceAll_def)


theorem non_bare_key_resets_path_witness:
  \<open>\<not> isBareProp (ustr ''a b'') \<and>
   map_of [(ustr ''a b'', JObject [(ustr ''c'', JNull)])] (ustr ''a b'') =
     Some (JObject [(ustr ''c'', JNull)]) \<and>
   objectItem (map (map_prod id valueToHTML) [(ustr ''a b'', JObject [(ustr ''c'', JNull)])])
     (ustr ''a b'') 1 (ustr ''<root>'') =
   ustr ''<li><span class="prop quoted" title=""><span class="q">&quot;</span>a b<span class="q">&quot;</span></span>: <span class="collapser"></span>{<ul class="obj collapsible"><li><span class="prop" title=".c"><span class="q">&quot;</span>c<span class="q">&quot;</span></span>: <span class="null">null</span></li></ul>}</li>''\<close>
proof -
  have b: "\<not> isBareProp (ustr ''a b'')" by (simp add: render_eval)
  have m: "map_of [(ustr ''a b'', JObject [(ustr ''c'', JNull)])] (ustr ''a b'') =
     Some (JObject [(ustr ''c'', JNull)])" by simp
  show ?thesis
    using b m non_bare_key_resets_path [OF b m, of 1 "ustr ''<root>''"] by (simp add: render_eval)
qed





lemma forInKeys_map [simp]: "forInKeys (map (map_prod id f) json) = forInKeys json"
  by (simp add: forInKeys_def comp_def)





lemma safe_append: "safeFragment a \<Longrightarrow> safeFragment b \<Longrightarrow> safeFragment (a @ b)"
  by (induction a rule: safeFragment.induct) (auto intro: safeFragment.intros)

lemma safe_neutral: "htmlNeutral t \<Longrightarrow> safeFragment t"
  using safe_text [of t "[]"] safe_empty by simp

lemma safe_token: "m \<in> set markupTokens \<Longrightarrow> safeFragment m"
  using safe_markup [of m "[]"] safe_empty by simp

lemma safe_htmlEncode: "safeFragment (htmlEncode t)"
  by (rule safe_neutral [OF htmlNeutral_htmlEncode])

lemma safe_jsString: "safeFragment (jsString s)"
  by (simp add: jsString_def safe_htmlEncode)

lemma safe_htmlEncodeOpt: "safeFragment (htmlEncodeOpt t)"
  by (cases t) (simp_all add: htmlEncodeOpt_def safe_htmlEncode safe_empty)

lemmas safe_intros =
  safe_append safe_htmlEncode safe_jsString safe_htmlEncodeOpt safe_empty

lemma safe_literals:
  \<open>safeFragment (ustr ''<span class="'')\<close>
  \<open>safeFragment (ustr ''">'')\<close>
  \<open>safeFragment (ustr ''</span>'')\<close>
  \<open>safeFragment (ustr ''<li>'')\<close>
  \<open>safeFragment (ustr ''</li>'')\<close>
  \<open>safeFragment (ustr ''<span class="collapser"></span>'')\<close>
  \<open>safeFragment (ustr ''[<ul class="array collapsible">'')\<close>
  \<open>safeFragment (ustr ''</ul>]'')\<close>
  \<open>safeFragment (ustr ''<span class="collapser"></span>{<ul class="obj collapsible">'')\<close>
  \<open>safeFragment (ustr ''</ul>}'')\<close>
  \<open>safeFragment (ustr ''<li><span class="prop'')\<close>
  \<open>safeFragment (ustr ''" title="'')\<close>
  \<open>safeFragment (ustr ''"><span class="q">&quot;</span>'')\<close>
  \<open>safeFragment (ustr ''<span class="q">&quot;</span></span>: '')\<close>
  \<open>safeFragment (ustr ''<a href="'')\<close>
  \<open>safeFragment (ustr ''<span class="q">&quot;</span></a>'')\<close>
  \<open>safeFragment (ustr ''<span class="string">&quot;'')\<close>
  \<open>safeFragment (ustr ''&quot;</span>'')\<close>
  \<open>safeFragment (ustr ''<span class="errorline">'')\<close>
  \<open>safeFragment (ustr ''<span class="errorcolumn">'')\<close>
  by (rule safe_token, simp add: markupTokens_def)+

lemma safe_plain:
  "safeFragment (ustr '','')" "safeFragment (ustr '' quoted'')" "safeFragment (ustr ''[ ]'')"
  "safeFragment (ustr ''{ }'')"
  by (rule safe_neutral, simp add: ustr_def)+

lemma safe_if:
  "safeFragment a \<Longrightarrow> safeFragment b \<Longrightarrow> safeFragment (if c then a else b)"
  by simp

lemmas safe_parts =
  safe_append safe_if safe_htmlEncode safe_jsString safe_htmlEncodeOpt safe_empty
  safe_literals safe_plain

lemma safe_decorate:
  "htmlNeutral cls \<Longrightarrow> safeFragment (decorateWithSpan v cls)"
  unfolding decorateWithSpan_def
  by (intro safe_parts safe_neutral)

lemma safe_stringToHTML: "safeFragment (stringToHTML v)"
  unfolding stringToHTML_def
  by (intro safe_parts)

lemma safe_arrayLoop:
  "(\<And>r p. r \<in> set rs \<Longrightarrow> safeFragment (r p)) \<Longrightarrow> safeFragment (arrayLoop rs i len path)"
proof (induction rs arbitrary: i)
  case Nil
  then show ?case by (simp add: safe_empty)
next
  case (Cons r rs)
  have t: "safeFragment (arrayLoop rs (Suc i) len path)"
    using Cons.IH Cons.prems by simp
  have h: "safeFragment (r (path @ ustr ''['' @ decimal i @ ustr '']''))"
    using Cons.prems by simp
  show ?case
    unfolding arrayLoop.simps
    by (intro safe_parts t h)
qed

lemma safe_objectItem:
  "(\<And>k r p. (k, r) \<in> set rs \<Longrightarrow> safeFragment (r p)) \<Longrightarrow>
   safeFragment (objectItem rs prop numProps path)"
proof -
  assume a: "\<And>k r p. (k, r) \<in> set rs \<Longrightarrow> safeFragment (r p)"
  have v: "\<And>p. safeFragment (case map_of rs prop of None \<Rightarrow> [] | Some r \<Rightarrow> r p)"
    using a by (auto split: option.splits dest: map_of_SomeD intro: safe_empty)
  show ?thesis
    unfolding objectItem_def Let_def
    by (intro safe_parts v)
qed

lemma safe_objectLoop:
  "(\<And>k r p. (k, r) \<in> set rs \<Longrightarrow> safeFragment (r p)) \<Longrightarrow>
   safeFragment (objectLoop rs props numProps path)"
proof (induction props arbitrary: numProps)
  case Nil
  show ?case by (simp add: safe_empty)
next
  case (Cons p ps)
  show ?case
    unfolding objectLoop.simps
    by (intro safe_append safe_objectItem Cons.IH Cons.prems)
qed

lemma safe_valueToHTML: "safeFragment (valueToHTML v path)"
proof (induction v arbitrary: path)
  case JNull
  show ?case by (auto intro: safe_decorate simp: ustr_def)
next
  case (JBool b)
  show ?case by (auto intro: safe_decorate simp: ustr_def)
next
  case (JNumber n)
  show ?case by (auto intro: safe_decorate simp: ustr_def)
next
  case (JString s)
  show ?case by (auto intro: safe_decorate safe_stringToHTML simp: ustr_def)
next
  case (JArray xs)
  have loop: "\<And>n. safeFragment (arrayLoop (map valueToHTML xs) 0 n path)"
    by (rule safe_arrayLoop) (auto simp: JArray.IH)
  show ?case
    unfolding valueToHTML.simps arrayToHTML_def by (intro safe_parts loop)
next
  case (JObject ps)
  have loop: "\<And>ks n. safeFragment (objectLoop (map (map_prod id valueToHTML) ps) ks n path)"
  proof (rule safe_objectLoop)
    fix ks n k r p
    assume "(k, r) \<in> set (map (map_prod id valueToHTML) ps)"
    then obtain v where "(k, v) \<in> set ps" and "r = valueToHTML v" by auto
    then show "safeFragment (r p)"
      using JObject.IH [of "(k, v)" v p] by simp
  qed
  show ?case
    unfolding valueToHTML.simps objectToHTML_def Let_def by (intro safe_parts loop)
qed

lemma safe_highlightLoop: "safeFragment (highlightLoop lns i l c)"
proof (induction lns arbitrary: i)
  case Nil
  show ?case by (simp add: safe_empty)
next
  case (Cons ln lns)
  show ?case
    unfolding highlightLoop.simps
    by (intro safe_parts Cons.IH)
qed

lemma safe_highlightError: "safeFragment (highlightError data l c)"
  by (simp add: highlightError_def safe_htmlEncode safe_highlightLoop)


lemmas error_eval =
  errorPageBody_def massageError_def thrownError_def stripJSONparse_def matchLineColumn_def
  highlightError_def falsy_def numberOf_def charAt_def htmlEncodeOpt_def isLineTerminator_def
  htmlEncode_def replaceAll_def isDigit_def ustr_def Let_def

text \<open>
  Claim C6. Whatever the value, the path and the raw text are, the rendered value and the
  highlighted raw text of the error page consist of the formatter's own markup and of
  neutral text only. \<open>htmlEncode\<close> yields neutral text; replacing the ampersand first
  makes it a single pass over the characters, so no entity is encoded twice; keys and
  string values are JSON-escaped and then HTML-encoded.
\<close>

theorem html_significant_characters_neutralized:
  "safeFragment (valueToHTML v path) \<and>
   safeFragment (highlightError data lineNum columnNum) \<and>
   htmlNeutral (htmlEncode t) \<and>
   htmlEncode t = concat (map htmlEntity t) \<and>
   jsString s = htmlEncode (quoteBody s)"
  by (simp add: safe_valueToHTML safe_highlightError htmlNeutral_htmlEncode jsString_eq
      htmlEncode_single_pass [symmetric])

theorem html_significant_characters_neutralized_witness:
  \<open>safeFragment (valueToHTML (JObject [(ustr ''"><b>'', JString (ustr ''</span><script>&''))]) (ustr ''<root>'')) \<and>
   valueToHTML (JObject [(ustr ''"><b>'', JString (ustr ''</span><script>&''))]) (ustr ''<root>'') =
   ustr ''<span class="collapser"></span>{<ul class="obj collapsible"><li><span class="prop quoted" title=""><span class="q">&quot;</span>'' @ [BACKSLASH] @ ustr ''&quot;&gt;&lt;b&gt;<span class="q">&quot;</span></span>: <span class="string">&quot;&lt;/span&gt;&lt;script&gt;&amp;&quot;</span></li></ul>}''\<close>
  using html_significant_characters_neutralized [of \<open>JObject [(ustr ''"><b>'', JString (ustr ''</span><script>&''))]\<close> "ustr ''<root>''"]
  by (simp add: render_eval)

text \<open>
  Claim C7 on the code: for a message without a line and a column, \<open>massageError\<close>
  returns the error itself, and the page carries its message as it is, here with an
  unescaped \<open><\<close>.
\<close>

theorem error_message_not_escaped:
  \<open>errorPageBody (ustr ''Error'')
     (thrownError (ustr ''Unexpected token < in JSON at position 0'')) (ustr ''<'') =
   ustr ''<div id="error">Error<div class="errormessage">Unexpected token < in JSON at position 0</div></div><div id="json">&lt;</div>''\<close>
  by (simp add: error_eval)

text \<open>
  Claim C8 on the code: of two NUL characters in the text only the first is replaced.
\<close>

theorem only_first_nul_replaced:
  \<open>errorPageBody (ustr ''Error'') (thrownError (ustr ''bad'')) [0, 0] =
   ustr ''<div id="error">Error<div class="errormessage">bad</div></div><div id="json">'' @
   [65533, 0] @ ustr ''</div>''\<close>
  by (simp add: error_eval)

subsection \<open>JSON.parse on the documents of the grammar\<close>

lemma skipWS_ws: "list_all isJSONWhiteSpace w \<Longrightarrow> skipWS (w @ r) = skipWS r"
  by (induction w) (simp_all add: skipWS_def)

lemma skipWS_stop: "\<not> isJSONWhiteSpace c \<Longrightarrow> skipWS (c # r) = c # r"
  by (simp add: skipWS_def)

lemma parseValue_ws:
  "list_all isJSONWhiteSpace w \<Longrightarrow> parseValue num f (w @ s) = parseValue num f s"
  by (cases f) (simp_all add: skipWS_ws)

lemma parseString_items:
  "list_all itemOK items \<Longrightarrow>
   parseString (concat (map printItem items) @ DQUOTE # rest) acc =
   Some (acc @ map itemValue items, rest)"
proof (induction items arbitrary: acc)
  case Nil
  then show ?case by simp
next
  case (Cons it items)
  then have ih: "\<And>acc. parseString (concat (map printItem items) @ DQUOTE # rest) acc =
      Some (acc @ map itemValue items, rest)"
    by simp
  show ?case
  proof (cases it)
    case (Plain c)
    then show ?thesis using Cons.prems by (simp add: ih)
  next
    case (Escape e)
    then have "e \<noteq> 117" using Cons.prems by (auto simp: simpleEscape_def)
    then show ?thesis using Escape Cons.prems by (auto simp: ih)
  next
    case (UEscape a b c d)
    then show ?thesis using Cons.prems by (auto simp: ih)
  qed
qed

lemma parseString_printString:
  "list_all itemOK items \<Longrightarrow>
   parseString (tl (printString items) @ rest) [] = Some (map itemValue items, rest)"
  using parseString_items [of items rest "[]"] by (simp add: printString_def)


lemma takeWhile_rest:
  "r = [] \<or> \<not> P (hd r) \<Longrightarrow> takeWhile P (xs @ r) = takeWhile P xs"
  by (induction xs) (auto simp: takeWhile_eq_Nil_iff neq_Nil_conv)

lemma digits_rest: "restOK r \<Longrightarrow> takeWhile isDigit (xs @ r) = takeWhile isDigit xs"
  by (rule takeWhile_rest) (cases r, auto simp: restOK_def isNumberChar_def)

lemma integerLength_rest: "restOK r \<Longrightarrow> integerLength (s @ r) = integerLength s"
proof (cases s)
  case Nil
  assume "restOK r"
  then show ?thesis using Nil
    by (cases r) (auto simp: integerLength_def restOK_def isNumberChar_def isDigit_def)
next
  case (Cons d ds)
  assume "restOK r"
  then show ?thesis using Cons digits_rest [of r ds]
    by (simp add: integerLength_def)
qed

lemma fractionLength_rest: "restOK r \<Longrightarrow> fractionLength (s @ r) = fractionLength s"
proof (cases s)
  case Nil
  assume "restOK r"
  then show ?thesis using Nil
    by (cases r) (auto simp: fractionLength_def restOK_def isNumberChar_def)
next
  case (Cons d ds)
  assume "restOK r"
  then show ?thesis using Cons digits_rest [of r ds]
    by (simp add: fractionLength_def)
qed

lemma exponentLength_rest: "restOK r \<Longrightarrow> exponentLength (s @ r) = exponentLength s"
proof -
  assume ok: "restOK r"
  note tw = digits_rest [OF ok]
  show ?thesis
  proof (cases s)
    case Nil
    then show ?thesis using ok
      by (cases r) (auto simp: exponentLength_def restOK_def isNumberChar_def)
  next
    case s: (Cons e es)
    show ?thesis
    proof (cases es)
      case Nil
      then show ?thesis using ok s
        by (cases r) (auto simp: exponentLength_def restOK_def isNumberChar_def)
    next
      case (Cons sg ds)
      then show ?thesis using s tw [of ds] tw [of "sg # ds"]
        by (simp add: exponentLength_def)
    qed
  qed
qed

lemma matchNumber_rest: "restOK r \<Longrightarrow> matchNumber (s @ r) = matchNumber s"
proof -
  assume ok: "restOK r"
  define sg :: nat where "sg = (if s \<noteq> [] \<and> hd s = 45 then 1 else 0)"
  have sg': "(if s @ r \<noteq> [] \<and> hd (s @ r) = 45 then 1 else 0) = sg"
    using ok by (cases s; cases r) (auto simp: sg_def restOK_def isNumberChar_def)
  have sg_le: "sg \<le> length s" by (cases s) (auto simp: sg_def)
  define ip where "ip = integerLength (drop sg s)"
  have ip': "integerLength (drop sg (s @ r)) = ip"
    using sg_le by (simp add: ip_def integerLength_rest [OF ok])
  have ip_le: "sg + ip \<le> length s"
    using integerLength_le [of "drop sg s"] sg_le by (simp add: ip_def)
  define fp where "fp = fractionLength (drop (sg + ip) s)"
  have fp': "fractionLength (drop (sg + ip) (s @ r)) = fp"
    using ip_le by (simp add: fp_def fractionLength_rest [OF ok])
  have fp_le: "sg + ip + fp \<le> length s"
    using fractionLength_le [of "drop (sg + ip) s"] ip_le by (simp add: fp_def)
  have ep': "exponentLength (drop (sg + ip + fp) (s @ r)) =
      exponentLength (drop (sg + ip + fp) s)"
    using fp_le by (simp add: exponentLength_rest [OF ok])
  show ?thesis
    unfolding matchNumber_def Let_def sg' ip' fp' ep'
    by (simp add: sg_def ip_def fp_def)
qed

lemma numberLiteral_start:
  assumes "isNumberLiteral lit"
  shows "\<exists>c cs. lit = c # cs \<and> (c = 45 \<or> isDigit c)"
proof (cases lit)
  case Nil
  then show ?thesis using assms
    by (simp add: isNumberLiteral_def matchNumber_def integerLength_def)
next
  case (Cons c cs)
  then show ?thesis using assms
    by (auto simp: isNumberLiteral_def matchNumber_def integerLength_def Let_def isDigit_def
        split: if_splits)
qed

lemma parseValue_number:
  assumes "isNumberLiteral lit" and "restOK r"
  shows "parseValue num (Suc f) (lit @ r) = Some (JNumber (num lit), r)"
proof -
  obtain c cs where lit: "lit = c # cs" and c: "c = 45 \<or> isDigit c"
    using numberLiteral_start [OF assms(1)] by blast
  have m: "matchNumber (c # cs @ r) = Some (length lit)"
    using matchNumber_rest [OF assms(2), of lit] assms(1) lit
    by (simp add: isNumberLiteral_def)
  have ws: "skipWS (c # cs @ r) = c # cs @ r"
    using c by (auto simp: skipWS_def isJSONWhiteSpace_def isDigit_def)
  show ?thesis
    using c m lit by (auto simp: ws ustr_def isDigit_def)
qed


lemma restOK_simps [simp]:
  "restOK []" "restOK (93 # r)" "restOK (125 # r)" "restOK (44 # r)" "restOK (DQUOTE # r)"
  "restOK (58 # r)"
  by (simp_all add: restOK_def isNumberChar_def isDigit_def)

lemma restOK_ws: "list_all isJSONWhiteSpace w \<Longrightarrow> restOK r \<Longrightarrow> restOK (w @ r)"
  by (cases w) (auto simp: restOK_def isNumberChar_def isJSONWhiteSpace_def isDigit_def)

lemma trail_ws: "wellFormed d \<Longrightarrow> list_all isJSONWhiteSpace (trail d)"
  by (induction d) simp_all

lemma firstChar:
  "wellFormed d \<Longrightarrow>
   (case skipWS (printDoc d @ x) of [] \<Rightarrow> False | c # r \<Rightarrow> c \<noteq> 93 \<and> c \<noteq> 125)"
proof (induction d arbitrary: x)
  case (DNumber lit)
  then obtain c cs where "lit = c # cs" and "c = 45 \<or> isDigit c"
    using numberLiteral_start [of lit] by auto
  then show ?case
    by (auto simp: skipWS_def isJSONWhiteSpace_def isDigit_def)
next
  case (Padded w1 d w2)
  then show ?case using Padded.IH [of "w2 @ x"] by (simp add: skipWS_ws)
qed (simp_all add: skipWS_def isJSONWhiteSpace_def ustr_def printString_def)

lemma skipWS_trail:
  "list_all isJSONWhiteSpace w \<Longrightarrow> \<not> isJSONWhiteSpace c \<Longrightarrow> skipWS (w @ c # r) = c # r"
  by (simp add: skipWS_ws skipWS_stop)

lemma punctuation_notWS [simp]:
  "\<not> isJSONWhiteSpace 93" "\<not> isJSONWhiteSpace 125" "\<not> isJSONWhiteSpace 44"
  "\<not> isJSONWhiteSpace 58" "\<not> isJSONWhiteSpace DQUOTE" "\<not> isJSONWhiteSpace 91"
  "\<not> isJSONWhiteSpace 123"
  by (simp_all add: isJSONWhiteSpace_def)

lemma parseElements_round:
  assumes "es \<noteq> []"
    and "\<And>e f r. e \<in> set es \<Longrightarrow> need e \<le> f \<Longrightarrow> restOK r \<Longrightarrow>
      parseValue num f (printDoc e @ r) = Some (valueOf num e, trail e @ r)"
    and "\<And>e. e \<in> set es \<Longrightarrow> list_all isJSONWhiteSpace (trail e)"
    and "sum_list (map Suc (map need es)) \<le> f"
  shows "parseElements num f (commaJoin (map printDoc es) @ 93 # rest) acc =
    Some (JArray (acc @ map (valueOf num) es), rest)"
  using assms
proof (induction es arbitrary: f acc rule: list_nonempty_induct)
  case (single e)
  then obtain f' where f: "f = Suc f'" and n: "need e \<le> f'"
    by (cases f) auto
  have "parseValue num f' (printDoc e @ 93 # rest) = Some (valueOf num e, trail e @ 93 # rest)"
    using single.prems(1) [of e f' "93 # rest"] n by simp
  then show ?case
    using single.prems(2) [of e]
    by (simp add: f skipWS_trail)
next
  case (cons e es)
  then obtain f' where f: "f = Suc f'" and n: "need e \<le> f'"
    and n': "sum_list (map Suc (map need es)) \<le> f'"
    by (cases f) auto
  obtain e' es' where es: "es = e' # es'" using cons.hyps by (cases es) auto
  have v: "parseValue num f' (printDoc e @ 44 # commaJoin (map printDoc es) @ 93 # rest) =
      Some (valueOf num e, trail e @ 44 # commaJoin (map printDoc es) @ 93 # rest)"
    using cons.prems(1) [of e f' "44 # commaJoin (map printDoc es) @ 93 # rest"] n by simp
  have ih: "parseElements num f' (commaJoin (map printDoc es) @ 93 # rest)
      (acc @ [valueOf num e]) = Some (JArray ((acc @ [valueOf num e]) @ map (valueOf num) es), rest)"
  proof (rule cons.IH)
    show "\<And>e f r. e \<in> set es \<Longrightarrow> need e \<le> f \<Longrightarrow> restOK r \<Longrightarrow>
        parseValue num f (printDoc e @ r) = Some (valueOf num e, trail e @ r)"
      using cons.prems(1) by auto
    show "\<And>e. e \<in> set es \<Longrightarrow> list_all isJSONWhiteSpace (trail e)"
      using cons.prems(2) by auto
    show "sum_list (map Suc (map need es)) \<le> f'" by (rule n')
  qed
  show ?case
    using v ih cons.prems(2) [of e]
    by (simp add: f es skipWS_trail)
qed


lemma parseMembers_round:
  assumes "ms \<noteq> []"
    and "\<And>k v. (k, v) \<in> set ms \<Longrightarrow> keyOK k"
    and "\<And>k v f r. (k, v) \<in> set ms \<Longrightarrow> need v \<le> f \<Longrightarrow> restOK r \<Longrightarrow>
      parseValue num f (printDoc v @ r) = Some (valueOf num v, trail v @ r)"
    and "\<And>k v. (k, v) \<in> set ms \<Longrightarrow> list_all isJSONWhiteSpace (trail v)"
    and "sum_list (map (\<lambda>(k, v). Suc (need v)) ms) \<le> f"
  shows "parseMembers num f
      (commaJoin (map (\<lambda>(k, v). printKey k @ printDoc v) ms) @ 125 # rest) acc =
    Some (JObject (foldl (\<lambda>acc (k, v). defineProperty acc k v) acc
      (map (\<lambda>(k, v). (keyValue k, valueOf num v)) ms)), rest)"
  using assms
proof (induction ms arbitrary: f acc rule: list_nonempty_induct)
  case (single m)
  obtain k v where m: "m = (k, v)" by (cases m)
  obtain w1 items w2 where k: "k = DKey w1 items w2" by (cases k)
  have ok: "list_all isJSONWhiteSpace w1" "list_all itemOK items" "list_all isJSONWhiteSpace w2"
    using single.prems(1) [of k v] m k by simp_all
  obtain f' where f: "f = Suc f'" and n: "need v \<le> f'"
    using single.prems(4) m by (cases f) auto
  have key: "parseString (concat (map printItem items) @ DQUOTE # w2 @ 58 # printDoc v @ 125 # rest) [] =
      Some (map itemValue items, w2 @ 58 # printDoc v @ 125 # rest)"
    using parseString_items [OF ok(2), of _ "[]"] by simp
  have val: "parseValue num f' (printDoc v @ 125 # rest) =
      Some (valueOf num v, trail v @ 125 # rest)"
    using single.prems(2) [of k v f' "125 # rest"] n m by simp
  show ?case
    using key val single.prems(3) [of k v] ok
    by (simp add: f m k printString_def skipWS_trail)
next
  case (cons m ms)
  obtain k v where m: "m = (k, v)" by (cases m)
  obtain w1 items w2 where k: "k = DKey w1 items w2" by (cases k)
  have ok: "list_all isJSONWhiteSpace w1" "list_all itemOK items" "list_all isJSONWhiteSpace w2"
    using cons.prems(1) [of k v] m k by simp_all
  obtain f' where f: "f = Suc f'" and n: "need v \<le> f'"
    and n': "sum_list (map (\<lambda>(k, v). Suc (need v)) ms) \<le> f'"
    using cons.prems(4) m by (cases f) auto
  obtain m' ms' where ms: "ms = m' # ms'" using cons.hyps by (cases ms) auto
  let ?tail = "commaJoin (map (\<lambda>(k, v). printKey k @ printDoc v) ms) @ 125 # rest"
  have key: "parseString (concat (map printItem items) @ DQUOTE # w2 @ 58 # printDoc v @ 44 # ?tail) [] =
      Some (map itemValue items, w2 @ 58 # printDoc v @ 44 # ?tail)"
    using parseString_items [OF ok(2), of _ "[]"] by simp
  have val: "parseValue num f' (printDoc v @ 44 # ?tail) =
      Some (valueOf num v, trail v @ 44 # ?tail)"
    using cons.prems(2) [of k v f' "44 # ?tail"] n m by simp
  have ih: "parseMembers num f' ?tail (defineProperty acc (map itemValue items) (valueOf num v)) =
      Some (JObject (foldl (\<lambda>acc (k, v). defineProperty acc k v)
        (defineProperty acc (map itemValue items) (valueOf num v))
        (map (\<lambda>(k, v). (keyValue k, valueOf num v)) ms)), rest)"
  proof (rule cons.IH)
    show "\<And>k v. (k, v) \<in> set ms \<Longrightarrow> keyOK k"
      using cons.prems(1) by auto
    show "\<And>k v f r. (k, v) \<in> set ms \<Longrightarrow> need v \<le> f \<Longrightarrow> restOK r \<Longrightarrow>
        parseValue num f (printDoc v @ r) = Some (valueOf num v, trail v @ r)"
      using cons.prems(2) by auto
    show "\<And>k v. (k, v) \<in> set ms \<Longrightarrow> list_all isJSONWhiteSpace (trail v)"
      using cons.prems(3) by auto
    show "sum_list (map (\<lambda>(k, v). Suc (need v)) ms) \<le> f'" by (rule n')
  qed
  show ?case
    using key val ih cons.prems(3) [of k v] ok
    by (simp add: f m k ms printString_def skipWS_trail)
qed


lemma members_maps:
  "map (\<lambda>(k, t). printKey k @ t) (map (map_prod id printDoc) ms) =
     map (\<lambda>(k, v). printKey k @ printDoc v) ms"
  "map (\<lambda>(k, n). Suc n) (map (map_prod id need) ms) = map (\<lambda>(k, v). Suc (need v)) ms"
  "map (map_prod keyValue (valueOf num)) ms = map (\<lambda>(k, v). (keyValue k, valueOf num v)) ms"
  by (induction ms) auto

lemma members_comps:
  "(\<lambda>(k, t). printKey k @ t) \<circ> map_prod id printDoc = (\<lambda>(k, v). printKey k @ printDoc v)"
  "(\<lambda>(k, n). Suc n) \<circ> map_prod id need = (\<lambda>(k, v). Suc (need v))"
  "map_prod keyValue (valueOf num) = (\<lambda>(k, v). (keyValue k, valueOf num v))"
  by (auto simp: fun_eq_iff)

lemma wellFormed_members:
  "list_all (\<lambda>(k, ok). keyOK k \<and> ok) (map (map_prod id wellFormed) ms) =
   (\<forall>(k, v) \<in> set ms. keyOK k \<and> wellFormed v)"
  by (induction ms) auto

lemma commaJoin_Cons: "\<exists>x. commaJoin (a # as) = a @ x"
  by (cases as) auto

lemma parseValue_printDoc:
  "wellFormed d \<Longrightarrow> need d \<le> f \<Longrightarrow> restOK r \<Longrightarrow>
   parseValue num f (printDoc d @ r) = Some (valueOf num d, trail d @ r)"
proof (induction d arbitrary: f r)
  case DNull
  then obtain f' where "f = Suc f'" by (cases f) auto
  then show ?case by (simp add: ustr_def skipWS_def isJSONWhiteSpace_def)
next
  case (DBool b)
  then obtain f' where "f = Suc f'" by (cases f) auto
  then show ?case by (cases b) (simp_all add: ustr_def skipWS_def isJSONWhiteSpace_def)
next
  case (DNumber lit)
  then obtain f' where "f = Suc f'" by (cases f) auto
  then show ?case using DNumber.prems parseValue_number [of lit r num f'] by simp
next
  case (DString items)
  then obtain f' where "f = Suc f'" by (cases f) auto
  then show ?case
    using DString.prems parseString_items [of items r "[]"]
    by (simp add: printString_def skipWS_stop)
next
  case (DArray ws es)
  obtain f' where f: "f = Suc f'" and n: "sum_list (map Suc (map need es)) \<le> f'"
    using DArray.prems(2) by (cases f) auto
  have wf: "list_all isJSONWhiteSpace ws" "\<And>e. e \<in> set es \<Longrightarrow> wellFormed e"
    using DArray.prems(1) by (auto simp: list_all_iff)
  show ?case
  proof (cases es)
    case Nil
    then show ?thesis using wf(1) by (simp add: f skipWS_stop skipWS_trail)
  next
    case (Cons e es')
    obtain x where x: "commaJoin (map printDoc es) = printDoc e @ x"
      using commaJoin_Cons [of "printDoc e" "map printDoc es'"] Cons by auto
    have first: "case skipWS (commaJoin (map printDoc es) @ 93 # r) of
        [] \<Rightarrow> False | c # t \<Rightarrow> c \<noteq> 93 \<and> c \<noteq> 125"
      using firstChar [of e "x @ 93 # r"] wf(2) [of e] Cons x by simp
    have elems: "parseElements num f' (commaJoin (map printDoc es) @ 93 # r) [] =
        Some (JArray ([] @ map (valueOf num) es), r)"
    proof (rule parseElements_round)
      show "es \<noteq> []" using Cons by simp
      show "\<And>e f r. e \<in> set es \<Longrightarrow> need e \<le> f \<Longrightarrow> restOK r \<Longrightarrow>
          parseValue num f (printDoc e @ r) = Some (valueOf num e, trail e @ r)"
        using DArray.IH wf(2) by blast
      show "\<And>e. e \<in> set es \<Longrightarrow> list_all isJSONWhiteSpace (trail e)"
        using wf(2) trail_ws by blast
      show "sum_list (map Suc (map need es)) \<le> f'" by (rule n)
    qed
    show ?thesis
      using first elems Cons
      by (auto simp: f skipWS_stop split: list.splits)
  qed
next
  case (DObject ws ms)
  obtain f' where f: "f = Suc f'" and n: "sum_list (map (\<lambda>(k, v). Suc (need v)) ms) \<le> f'"
    using DObject.prems(2) by (cases f) (auto simp: members_comps)
  have wf: "list_all isJSONWhiteSpace ws"
    "\<And>k v. (k, v) \<in> set ms \<Longrightarrow> keyOK k" "\<And>k v. (k, v) \<in> set ms \<Longrightarrow> wellFormed v"
    using DObject.prems(1) by (auto simp: wellFormed_members)
  show ?case
  proof (cases ms)
    case Nil
    then show ?thesis using wf(1) by (simp add: f skipWS_stop skipWS_trail objectOf_def)
  next
    case (Cons m ms')
    obtain k v where m: "m = (k, v)" by (cases m)
    obtain w1 items w2 where k: "k = DKey w1 items w2" by (cases k)
    obtain x where x: "commaJoin (map (\<lambda>(k, v). printKey k @ printDoc v) ms) =
        (printKey k @ printDoc v) @ x"
      using commaJoin_Cons [of "printKey k @ printDoc v"
          "map (\<lambda>(k, v). printKey k @ printDoc v) ms'"] Cons m by auto
    have w1: "list_all isJSONWhiteSpace w1" using wf(2) [of k v] Cons m k by simp
    define mtext where "mtext = commaJoin (map (\<lambda>(k, v). printKey k @ printDoc v) ms) @ 125 # r"
    have first: "\<exists>t. skipWS mtext = DQUOTE # t"
      using w1 by (simp add: mtext_def x k printString_def skipWS_trail)
    have pd: "printDoc (DObject ws ms) @ r = 123 # mtext"
      using list.distinct(2) [of m ms'] unfolding Cons [symmetric]
      by (simp add: mtext_def members_comps)
    have vd: "valueOf num (DObject ws ms) =
        JObject (foldl (\<lambda>acc (k, v). defineProperty acc k v) []
          (map (\<lambda>(k, v). (keyValue k, valueOf num v)) ms))"
      by (simp add: objectOf_def members_comps)
    have membs: "parseMembers num f'
        (commaJoin (map (\<lambda>(k, v). printKey k @ printDoc v) ms) @ 125 # r) [] =
        Some (JObject (foldl (\<lambda>acc (k, v). defineProperty acc k v) []
          (map (\<lambda>(k, v). (keyValue k, valueOf num v)) ms)), r)"
    proof (rule parseMembers_round)
      show "ms \<noteq> []" using Cons by simp
      show "\<And>k v. (k, v) \<in> set ms \<Longrightarrow> keyOK k" by (rule wf(2))
      show "\<And>k v f r. (k, v) \<in> set ms \<Longrightarrow> need v \<le> f \<Longrightarrow> restOK r \<Longrightarrow>
          parseValue num f (printDoc v @ r) = Some (valueOf num v, trail v @ r)"
      proof -
        fix k v f r
        assume a: "(k, v) \<in> set ms" "need v \<le> f" "restOK r"
        show "parseValue num f (printDoc v @ r) = Some (valueOf num v, trail v @ r)"
          by (rule DObject.IH [of "(k, v)" v, OF a(1) _ wf(3) [OF a(1)] a(2,3)]) simp
      qed
      show "\<And>k v. (k, v) \<in> set ms \<Longrightarrow> list_all isJSONWhiteSpace (trail v)"
        using wf(3) trail_ws by blast
      show "sum_list (map (\<lambda>(k, v). Suc (need v)) ms) \<le> f'" by (rule n)
    qed
    from first obtain t where t: "skipWS mtext = DQUOTE # t" by blast
    show ?thesis
      unfolding pd vd f
      using membs by (simp add: skipWS_stop t mtext_def [symmetric])
  qed
next
  case (Padded w1 d w2)
  have "parseValue num f (printDoc d @ w2 @ r) = Some (valueOf num d, trail d @ w2 @ r)"
    using Padded.IH [of f "w2 @ r"] Padded.prems by (simp add: restOK_ws)
  then show ?case
    using Padded.prems(1) by (simp add: parseValue_ws)
qed


lemma length_commaJoin:
  "xs \<noteq> [] \<Longrightarrow> Suc (length (commaJoin xs)) = sum_list (map length xs) + length xs"
  by (induction xs rule: list_nonempty_induct) (auto simp: neq_Nil_conv)

lemma need_le_length: "wellFormed d \<Longrightarrow> need d \<le> length (printDoc d)"
proof (induction d)
  case (DNumber lit)
  then show ?case using numberLiteral_start [of lit] by auto
next
  case (DString items)
  show ?case by (simp add: printString_def)
next
  case (DArray ws es)
  have wf: "\<And>e. e \<in> set es \<Longrightarrow> wellFormed e"
    using DArray.prems by (auto simp: list_all_iff)
  show ?case
  proof (cases "es = []")
    case True
    then show ?thesis by simp
  next
    case False
    have "sum_list (map need es) \<le> sum_list (map (length \<circ> printDoc) es)"
      unfolding comp_def by (rule sum_list_mono) (simp add: DArray.IH wf)
    then show ?thesis
      using False length_commaJoin [of "map printDoc es"]
      by (simp add: sum_list_Suc comp_def)
  qed
next
  case (DObject ws ms)
  have wf: "\<And>k v. (k, v) \<in> set ms \<Longrightarrow> wellFormed v"
    using DObject.prems by (auto simp: wellFormed_members)
  show ?case
  proof (cases "ms = []")
    case True
    then show ?thesis by simp
  next
    case False
    have "sum_list (map (\<lambda>m. need (snd m)) ms) \<le>
        sum_list (map (\<lambda>m. length (printKey (fst m) @ printDoc (snd m))) ms)"
    proof (rule sum_list_mono)
      fix m assume m: "m \<in> set ms"
      obtain k v where kv: "m = (k, v)" by (cases m)
      have "need v \<le> length (printDoc v)"
        using DObject.IH [of m v] wf [of k v] m kv by simp
      then show "need (snd m) \<le> length (printKey (fst m) @ printDoc (snd m))"
        using kv by simp
    qed
    then show ?thesis
      using False length_commaJoin [of "map (\<lambda>m. printKey (fst m) @ printDoc (snd m)) ms"]
      by (simp add: sum_list_Suc comp_def case_prod_beta)
  qed
qed (simp_all add: ustr_def)

lemma JSON_parse_printDoc:
  "wellFormed d \<Longrightarrow> JSON_parse num (printDoc d) = Some (valueOf num d)"
proof -
  assume wf: "wellFormed d"
  have "parseValue num (Suc (length (printDoc d))) (printDoc d @ []) =
      Some (valueOf num d, trail d @ [])"
    using need_le_length [OF wf] by (intro parseValue_printDoc [OF wf]) simp_all
  then show ?thesis
    using trail_ws [OF wf] skipWS_ws [of "trail d" "[]"]
    by (simp add: JSON_parse_def skipWS_def)
qed

subsection \<open>The encoder on the documents of the grammar\<close>

lemma matchNumber_plain: "isPlainChar c \<Longrightarrow> matchNumber (c # cs) = None"
  by (auto simp: matchNumber_def integerLength_def isPlainChar_def isDigit_def Let_def)

lemma encodeSpec_plain:
  "list_all isPlainChar t \<Longrightarrow>
   encodeSpec (False, 0) (t @ r) = t @ encodeSpec (False, 0) r"
proof (induction t)
  case Nil
  show ?case by simp
next
  case (Cons c cs)
  then have "parityStep c (False, 0) = (False, 0)"
    by (simp add: parityStep_def isPlainChar_def)
  then show ?case using Cons by (simp add: matchNumber_plain)
qed

lemma staysInside_fst: "staysInside st t \<Longrightarrow> fst st"
  by (cases t) simp_all

lemma staysInside_append:
  "staysInside st (a @ b) = (staysInside st a \<and> staysInside (parityScan a st) b)"
  by (induction a arbitrary: st) (auto dest: staysInside_fst)

lemma staysInside_drop:
  "staysInside st t \<Longrightarrow> staysInside (parityScan (take n t) st) (drop n t)"
  using staysInside_append [of st "take n t" "drop n t"] by simp

lemma encodeSpec_inside:
  "staysInside st t \<Longrightarrow> restOK r \<Longrightarrow>
   encodeSpec st (t @ r) = t @ encodeSpec (parityScan t st) r"
proof (induction "length t" arbitrary: t st rule: less_induct)
  case less
  show ?case
  proof (cases t)
    case Nil
    then show ?thesis by simp
  next
    case (Cons c cs)
    show ?thesis
    proof (cases "matchNumber (c # cs)")
      case None
      have m: "matchNumber (c # cs @ r) = None"
        using matchNumber_rest [OF less.prems(2), of "c # cs"] None by simp
      have "encodeSpec (parityStep c st) (cs @ r) = cs @ encodeSpec (parityScan cs (parityStep c st)) r"
        using less.hyps [of cs "parityStep c st"] less.prems Cons by simp
      then show ?thesis using Cons m by simp
    next
      case (Some n)
      have m: "matchNumber (c # cs @ r) = Some n"
        using matchNumber_rest [OF less.prems(2), of "c # cs"] Some by simp
      have n: "0 < n" "n \<le> length t"
        using matchNumber_Some(1,2) [OF Some] Cons by simp_all
      have inside: "fst st" using less.prems(1) by (rule staysInside_fst)
      have tk: "take n (c # cs @ r) = take n t" and dr: "drop n (c # cs @ r) = drop n t @ r"
        using n take_append [of n t r] drop_append [of n t r] Cons by simp_all
      have "encodeSpec (parityScan (take n t) st) (drop n t @ r) =
          drop n t @ encodeSpec (parityScan (drop n t) (parityScan (take n t) st)) r"
        using less.hyps [of "drop n t" "parityScan (take n t) st"] n
          staysInside_drop [OF less.prems(1)] less.prems(2) by simp
      then have "encodeSpec (parityScan (take n t) st) (drop n t @ r) =
          drop n t @ encodeSpec (parityScan t st) r"
        using parityScan_append [of "take n t" "drop n t" st] by simp
      then show ?thesis
        using m inside Cons tk dr
        by (simp del: take_Suc_Cons drop_Suc_Cons)
    qed
  qed
qed


lemma staysInside_items:
  "list_all itemOK items \<Longrightarrow> even run \<Longrightarrow>
   staysInside (True, run) (concat (map printItem items)) \<and>
   (\<exists>run'. even run' \<and> parityScan (concat (map printItem items)) (True, run) = (True, run'))"
proof (induction items arbitrary: run)
  case Nil
  then show ?case by simp
next
  case (Cons it items)
  have rest: "\<And>run. even run \<Longrightarrow>
      staysInside (True, run) (concat (map printItem items)) \<and>
      (\<exists>run'. even run' \<and> parityScan (concat (map printItem items)) (True, run) = (True, run'))"
    using Cons by simp
  have "\<exists>run1. even run1 \<and> staysInside (True, run) (printItem it) \<and>
      parityScan (printItem it) (True, run) = (True, run1)"
  proof (cases it)
    case (Plain c)
    then show ?thesis using Cons.prems by (simp add: parityStep_def)
  next
    case (Escape e)
    then show ?thesis using Cons.prems by (auto simp: parityStep_def simpleEscape_def)
  next
    case (UEscape a b c d)
    then have "a \<noteq> DQUOTE \<and> a \<noteq> BACKSLASH \<and> b \<noteq> DQUOTE \<and> b \<noteq> BACKSLASH \<and>
        c \<noteq> DQUOTE \<and> c \<noteq> BACKSLASH \<and> d \<noteq> DQUOTE \<and> d \<noteq> BACKSLASH"
      using Cons.prems(1)
      by (auto simp: hex4_def hexValue_def split: option.splits if_splits)
    then show ?thesis using UEscape by (simp add: parityStep_def)
  qed
  then obtain run1 where r1: "even run1" "staysInside (True, run) (printItem it)"
      "parityScan (printItem it) (True, run) = (True, run1)"
    by blast
  show ?case
    using rest [OF r1(1)] r1(2,3)
    by (simp add: staysInside_append parityScan_append)
qed

lemma matchNumber_quote: "matchNumber (DQUOTE # r) = None"
  by (simp add: matchNumber_def integerLength_def isDigit_def)

lemma printItem_Plain: "concat (map (printItem \<circ> Plain) xs) = xs"
  by (induction xs) simp_all

lemma encodeSpec_string:
  assumes "list_all itemOK items"
  shows "encodeSpec (False, 0) (printString items @ r) =
    printString items @ encodeSpec (False, 0) r"
proof -
  let ?body = "concat (map printItem items)"
  obtain run' where inside: "staysInside (True, 0) ?body"
    and fin: "even run'" "parityScan ?body (True, 0) = (True, run')"
    using staysInside_items [OF assms, of 0] by auto
  have "encodeSpec (True, 0) (?body @ DQUOTE # r) =
      ?body @ encodeSpec (True, run') (DQUOTE # r)"
    using encodeSpec_inside [OF inside, of "DQUOTE # r"] fin by simp
  moreover have "encodeSpec (True, run') (DQUOTE # r) = DQUOTE # encodeSpec (False, 0) r"
    using fin(1) by (simp add: matchNumber_quote parityStep_def)
  moreover have "encodeSpec (False, 0) (DQUOTE # ?body @ DQUOTE # r) =
      DQUOTE # encodeSpec (True, 0) (?body @ DQUOTE # r)"
    by (simp add: matchNumber_quote parityStep_def)
  ultimately show ?thesis by (simp add: printString_def)
qed

lemma encodeSpec_number:
  assumes "isNumberLiteral lit" and "restOK r"
  shows "encodeSpec (False, 0) (lit @ r) =
    printString (Plain MARKER # map Plain lit) @ encodeSpec (False, 0) r"
proof -
  obtain c cs where lit: "lit = c # cs"
    using numberLiteral_start [OF assms(1)] by blast
  have m: "matchNumber lit = Some (length lit)"
    using assms(1) by (simp add: isNumberLiteral_def)
  have m': "matchNumber (c # cs @ r) = Some (length lit)"
    using matchNumber_rest [OF assms(2), of lit] m lit by simp
  have st: "parityScan lit (False, 0) = (False, 0)"
    using parityScan_match [OF m, of "(False, 0)"] by simp
  show ?thesis
    using m' st lit by (simp add: printString_def printItem_Plain del: parityScan_Cons)
qed

lemma replaceAll_notin: "c \<notin> set s \<Longrightarrow> replaceAll c r s = s"
  by (induction s) (simp_all add: replaceAll_def)

lemma doubled_ws: "list_all isJSONWhiteSpace w \<Longrightarrow> doubled w = w"
  by (rule replaceAll_notin) (auto simp: list_all_iff isJSONWhiteSpace_def)

lemma numberLiteral_chars: "isNumberLiteral lit \<Longrightarrow> list_all isNumberChar lit"
  using matchNumber_Some(3) [of lit "length lit"] by (simp add: isNumberLiteral_def)

lemma doubled_number: "isNumberLiteral lit \<Longrightarrow> doubled lit = lit"
proof (rule replaceAll_notin)
  assume "isNumberLiteral lit"
  then have "\<forall>x \<in> set lit. isNumberChar x"
    using numberLiteral_chars by (simp add: list_all_iff)
  moreover have "\<not> isNumberChar MARKER" by (simp add: isNumberChar_def isDigit_def)
  ultimately show "MARKER \<notin> set lit" by blast
qed

lemma doubled_Nil [simp]: "doubled [] = []"
  by (simp add: replaceAll_def)

lemma doubled_Cons [simp]:
  "doubled (c # s) = (if c = MARKER then [MARKER, MARKER] else [c]) @ doubled s"
  by (simp add: replaceAll_def)

lemma doubled_items:
  "list_all itemOK items \<Longrightarrow>
   doubled (concat (map printItem items)) = concat (map printItem (concat (map doubleItem items)))"
proof (induction items)
  case Nil
  show ?case by simp
next
  case (Cons it items)
  have "doubled (printItem it) = concat (map printItem (doubleItem it))"
  proof (cases it)
    case (Plain c)
    then show ?thesis by simp
  next
    case (Escape e)
    then show ?thesis using Cons.prems by (auto simp: simpleEscape_def)
  next
    case (UEscape a b c d)
    then show ?thesis using Cons.prems
      by (auto simp: hex4_def hexValue_def split: option.splits if_splits)
  qed
  then show ?case using Cons by (simp add: replaceAll_append)
qed

lemma doubled_printString:
  "list_all itemOK items \<Longrightarrow>
   doubled (printString items) = printString (concat (map doubleItem items))"
  by (simp add: printString_def replaceAll_append doubled_items)

lemma doubled_commaJoin: "doubled (commaJoin xs) = commaJoin (map doubled xs)"
  by (induction xs rule: commaJoin.induct) (simp_all add: replaceAll_append)

lemma doubled_printKey: "keyOK k \<Longrightarrow> doubled (printKey k) = printKey (encodeKey k)"
  by (cases k) (simp add: replaceAll_append doubled_ws doubled_printString)

lemma itemOK_doubled: "list_all itemOK items \<Longrightarrow> list_all itemOK (concat (map doubleItem items))"
proof (induction items)
  case Nil
  show ?case by simp
next
  case (Cons it items)
  then show ?case by (cases it) auto
qed

lemma ws_plain: "list_all isJSONWhiteSpace w \<Longrightarrow> list_all isPlainChar w"
  by (auto simp: list_all_iff isJSONWhiteSpace_def isPlainChar_def isDigit_def)

lemma encodeSpec_char:
  "isPlainChar c \<Longrightarrow> encodeSpec (False, 0) (c # r) = c # encodeSpec (False, 0) r"
  using encodeSpec_plain [of "[c]" r] by simp

lemma encodeSpec_commaJoin:
  assumes "es \<noteq> []"
    and "\<And>e r. e \<in> set es \<Longrightarrow> restOK r \<Longrightarrow>
      encodeSpec (False, 0) (f e @ r) = g e @ encodeSpec (False, 0) r"
    and "restOK r"
  shows "encodeSpec (False, 0) (commaJoin (map f es) @ r) =
    commaJoin (map g es) @ encodeSpec (False, 0) r"
  using assms
proof (induction es rule: list_nonempty_induct)
  case (single e)
  then show ?case by simp
next
  case (cons e es)
  obtain e' es' where es: "es = e' # es'" using cons.hyps by (cases es) auto
  have ih: "encodeSpec (False, 0) (commaJoin (map f es) @ r) =
      commaJoin (map g es) @ encodeSpec (False, 0) r"
    using cons.IH cons.prems by simp
  have "encodeSpec (False, 0) (f e @ 44 # commaJoin (map f es) @ r) =
      g e @ encodeSpec (False, 0) (44 # commaJoin (map f es) @ r)"
    using cons.prems(1) [of e "44 # commaJoin (map f es) @ r"] by simp
  also have "\<dots> = g e @ 44 # encodeSpec (False, 0) (commaJoin (map f es) @ r)"
    by (simp add: encodeSpec_char isPlainChar_def isDigit_def del: encodeSpec.simps)
  finally show ?case using ih by (simp add: es del: encodeSpec.simps)
qed


lemma encodeSpec_key:
  assumes "keyOK k"
  shows "encodeSpec (False, 0) (doubled (printKey k) @ r) =
    printKey (encodeKey k) @ encodeSpec (False, 0) r"
proof -
  obtain w1 items w2 where k: "k = DKey w1 items w2" by (cases k)
  have ok: "list_all isJSONWhiteSpace w1" "list_all itemOK items" "list_all isJSONWhiteSpace w2"
    using assms k by simp_all
  let ?items = "concat (map doubleItem items)"
  have "encodeSpec (False, 0) (w1 @ printString ?items @ (w2 @ [58]) @ r) =
      w1 @ printString ?items @ (w2 @ [58]) @ encodeSpec (False, 0) r"
    using ok(3)
    by (simp only: encodeSpec_plain [OF ws_plain [OF ok(1)]]
        encodeSpec_string [OF itemOK_doubled [OF ok(2)]])
       (simp add: encodeSpec_plain ws_plain encodeSpec_char isPlainChar_def isDigit_def
          del: encodeSpec.simps)
  then show ?thesis
    by (simp add: k replaceAll_append doubled_ws [OF ok(1)] doubled_ws [OF ok(3)]
        doubled_printString [OF ok(2)] del: encodeSpec.simps)
qed

lemma encodeSpec_doc:
  "wellFormed d \<Longrightarrow> restOK r \<Longrightarrow>
   encodeSpec (False, 0) (doubled (printDoc d) @ r) =
   printDoc (encodeDoc d) @ encodeSpec (False, 0) r"
proof (induction d arbitrary: r)
  case DNull
  have "list_all isPlainChar (ustr ''null'')" by (simp add: ustr_def isPlainChar_def isDigit_def)
  then show ?case
    using encodeSpec_plain [of "ustr ''null''" r] by (simp add: ustr_def)
next
  case (DBool b)
  have "list_all isPlainChar (ustr ''true'')" "list_all isPlainChar (ustr ''false'')"
    by (simp_all add: ustr_def isPlainChar_def isDigit_def)
  then show ?case
    using encodeSpec_plain [of "ustr ''true''" r] encodeSpec_plain [of "ustr ''false''" r]
    by (cases b) (simp_all add: ustr_def)
next
  case (DNumber lit)
  then show ?case by (simp add: doubled_number encodeSpec_number del: encodeSpec.simps)
next
  case (DString items)
  then show ?case
    by (simp add: doubled_printString encodeSpec_string itemOK_doubled del: encodeSpec.simps)
next
  case (DArray ws es)
  have wf: "list_all isJSONWhiteSpace ws" "\<And>e. e \<in> set es \<Longrightarrow> wellFormed e"
    using DArray.prems(1) by (auto simp: list_all_iff)
  have close: "\<And>x. encodeSpec (False, 0) (93 # x) = 93 # encodeSpec (False, 0) x"
    by (simp add: encodeSpec_char isPlainChar_def isDigit_def del: encodeSpec.simps)
  have "open": "\<And>x. encodeSpec (False, 0) (91 # x) = 91 # encodeSpec (False, 0) x"
    by (simp add: encodeSpec_char isPlainChar_def isDigit_def del: encodeSpec.simps)
  show ?case
  proof (cases "es = []")
    case True
    then show ?thesis
      using encodeSpec_plain [OF ws_plain [OF wf(1)], of "93 # r"]
      by (simp add: "open" close replaceAll_append doubled_ws [OF wf(1)] del: encodeSpec.simps)
  next
    case False
    have "encodeSpec (False, 0) (commaJoin (map (\<lambda>e. doubled (printDoc e)) es) @ 93 # r) =
        commaJoin (map (\<lambda>e. printDoc (encodeDoc e)) es) @ encodeSpec (False, 0) (93 # r)"
      by (rule encodeSpec_commaJoin [OF False]) (simp_all add: DArray.IH wf(2))
    then show ?thesis
      using False
      by (simp add: "open" close replaceAll_append doubled_commaJoin comp_def
          del: encodeSpec.simps)
  qed
next
  case (DObject ws ms)
  have wf: "list_all isJSONWhiteSpace ws"
    "\<And>k v. (k, v) \<in> set ms \<Longrightarrow> keyOK k" "\<And>k v. (k, v) \<in> set ms \<Longrightarrow> wellFormed v"
    using DObject.prems(1) by (auto simp: wellFormed_members)
  have close: "\<And>x. encodeSpec (False, 0) (125 # x) = 125 # encodeSpec (False, 0) x"
    by (simp add: encodeSpec_char isPlainChar_def isDigit_def del: encodeSpec.simps)
  have "open": "\<And>x. encodeSpec (False, 0) (123 # x) = 123 # encodeSpec (False, 0) x"
    by (simp add: encodeSpec_char isPlainChar_def isDigit_def del: encodeSpec.simps)
  show ?case
  proof (cases "ms = []")
    case True
    then show ?thesis
      using encodeSpec_plain [OF ws_plain [OF wf(1)], of "125 # r"]
      by (simp add: "open" close replaceAll_append doubled_ws [OF wf(1)] del: encodeSpec.simps)
  next
    case False
    have "encodeSpec (False, 0)
        (commaJoin (map (\<lambda>m. doubled (printKey (fst m)) @ doubled (printDoc (snd m))) ms) @ 125 # r) =
        commaJoin (map (\<lambda>m. printKey (encodeKey (fst m)) @ printDoc (encodeDoc (snd m))) ms) @
        encodeSpec (False, 0) (125 # r)"
    proof (rule encodeSpec_commaJoin [OF False])
      fix m x
      assume m: "m \<in> set ms" and x: "restOK x"
      obtain k v where kv: "m = (k, v)" by (cases m)
      have "encodeSpec (False, 0) (doubled (printDoc v) @ x) =
          printDoc (encodeDoc v) @ encodeSpec (False, 0) x"
        using DObject.IH [of m v x] wf(3) [of k v] m kv x by simp
      then show "encodeSpec (False, 0)
          ((doubled (printKey (fst m)) @ doubled (printDoc (snd m))) @ x) =
          (printKey (encodeKey (fst m)) @ printDoc (encodeDoc (snd m))) @ encodeSpec (False, 0) x"
        using encodeSpec_key [OF wf(2) [of k v], of "doubled (printDoc v) @ x"] m kv
        by (simp del: encodeSpec.simps)
    qed simp
    then show ?thesis
      using False
      by (simp add: "open" close replaceAll_append doubled_commaJoin comp_def case_prod_beta
          del: encodeSpec.simps)
  qed
next
  case (Padded w1 d w2)
  have wf: "list_all isJSONWhiteSpace w1" "wellFormed d" "list_all isJSONWhiteSpace w2"
    using Padded.prems(1) by simp_all
  have "encodeSpec (False, 0) (w1 @ doubled (printDoc d) @ w2 @ r) =
      w1 @ printDoc (encodeDoc d) @ w2 @ encodeSpec (False, 0) r"
    using Padded.IH [OF wf(2) restOK_ws [OF wf(3) Padded.prems(2)]]
    by (simp add: encodeSpec_plain ws_plain wf del: encodeSpec.simps)
  then show ?case
    by (simp add: replaceAll_append doubled_ws wf del: encodeSpec.simps)
qed

lemma wellFormed_encodeDoc: "wellFormed d \<Longrightarrow> wellFormed (encodeDoc d)"
proof (induction d)
  case (DNumber lit)
  then have "list_all isNumberChar lit" by (simp add: numberLiteral_chars)
  then have "list_all itemOK (map Plain lit)"
    by (auto simp: list_all_iff isNumberChar_def isDigit_def)
  then show ?case by simp
next
  case (DString items)
  then show ?case by (simp add: itemOK_doubled)
next
  case (DArray ws es)
  then show ?case by (auto simp: list_all_iff)
next
  case (DObject ws ms)
  have "\<And>k. keyOK k \<Longrightarrow> keyOK (encodeKey k)"
  proof -
    fix k assume "keyOK k"
    then show "keyOK (encodeKey k)" by (cases k) (simp add: itemOK_doubled)
  qed
  then show ?case using DObject by (fastforce simp: list_all_iff)
qed simp_all

lemma encode_as_spec:
  "safeStringEncodeNums s = encodeSpec (False, 0) (doubled s)"
  using replaceLoop_invariant [of "doubled s" 0 "doubled s" 0 False]
  by (simp add: safeStringEncodeNums_def Let_def substring_def)

lemma encode_printDoc:
  "wellFormed d \<Longrightarrow> safeStringEncodeNums (printDoc d) = printDoc (encodeDoc d)"
  using encodeSpec_doc [of d "[]"] by (simp add: encode_as_spec)

lemma pipeline_parse:
  "wellFormed d \<Longrightarrow>
   JSON_parse num (safeStringEncodeNums (printDoc d)) = Some (valueOf num (encodeDoc d))"
  by (simp add: encode_printDoc JSON_parse_printDoc wellFormed_encodeDoc)

subsection \<open>Number literals under numeric coercion\<close>

















subsection \<open>Encoding, parsing and rendering\<close>

lemmas parse_eval =
  JSON_parse_def skipWS_def isJSONWhiteSpace_def hex4_def hexValue_def simpleEscape_def








text \<open>
  The object of the counterexample to claim C9 as it is parsed from a document: the key
  \<open>b\<close> is created before the key \<open>1\<close>.
\<close>

lemma integer_keys_parsed_in_document_order:
  \<open>JSON_parse (\<lambda>lit. lit) (safeStringEncodeNums (ustr ''{"b":null,"1":true}'')) =
     Some (JObject [(ustr ''b'', JNull), (ustr ''1'', JBool True)])\<close>
  using pipeline_parse
    [of "DObject [] [(DKey [] [Plain 98] [], DNull), (DKey [] [Plain 49] [], DBool True)]"
      "\<lambda>lit. lit"]
  by (simp add: printString_def objectOf_def ustr_def)

text \<open>
  The specification's example for claim C4, through the parser and the formatter: the
  value with the \<open>42\<close> inside is one quoted string.
\<close>

lemma number_inside_string_renders_quoted:
  \<open>JSON_parse (\<lambda>lit. lit)
     (safeStringEncodeNums (ustr ''{"a": "totally not a number like 42 here"}'')) =
     Some (JObject [(ustr ''a'', JString (ustr ''totally not a number like 42 here''))]) \<and>
   valueToHTML (JString (ustr ''totally not a number like 42 here'')) (ustr ''<root>.a'') =
     ustr ''<span class="string">&quot;totally not a number like 42 here&quot;</span>''\<close>
  using pipeline_parse
    [of "DObject [] [(DKey [] [Plain 97] [],
        Padded [32] (DString (map Plain (ustr ''totally not a number like 42 here''))) [])]"
      "\<lambda>lit. lit"]
  by (simp add: printString_def objectOf_def isJSONWhiteSpace_def render_eval)

text \<open>
  A marker written as the escape \<open>\u200B\<close> is not doubled by the encoder: such a string
  followed by digits is rendered as a number.
\<close>

lemma escaped_marker_renders_as_number:
  \<open>JSON_parse (\<lambda>lit. lit)
     (safeStringEncodeNums ([DQUOTE, BACKSLASH] @ ustr ''u200B12'' @ [DQUOTE])) =
     Some (JString (MARKER # ustr ''12'')) \<and>
   valueToHTML (JString (MARKER # ustr ''12'')) (ustr ''<root>'') =
     ustr ''<span class="num">12</span>''\<close>
  using pipeline_parse [of "DString [UEscape 50 48 48 66, Plain 49, Plain 50]" "\<lambda>lit. lit"]
  by (simp add: printString_def hex4_def hexValue_def render_eval)

end
